theory Spec2Isabelle
  imports Complex_Main "HOL-Library.Multiset" "HOL-Library.Char_ord" "HOL-Library.List_Lexorder"
    "HOL-Library.Word" "HOL-Library.Code_Target_Numeral"
begin

section \<open>Strings\<close>

text \<open>
  A Go string is a sequence of bytes, and so is a HOL \<open>string\<close>. Comparison with
  \<open><\<close> is bytewise lexicographic on both sides (\<open>Char_ord\<close>, \<open>List_Lexorder\<close>).
  The functions of package \<open>strings\<close> that \<open>main.go\<close> calls are written out below under
  their Go names.
\<close>

definition nl :: char where
  "nl = CHR 0x0A"

definition dquote :: char where
  "dquote = CHR 0x22"

fun hasPrefix :: "string \<Rightarrow> string \<Rightarrow> bool" where
  "hasPrefix s [] = True"
| "hasPrefix [] (p # ps) = False"
| "hasPrefix (c # cs) (p # ps) = (c = p \<and> hasPrefix cs ps)"

definition hasSuffix :: "string \<Rightarrow> string \<Rightarrow> bool" where
  "hasSuffix s suf = hasPrefix (rev s) (rev suf)"

definition trimPrefix :: "string \<Rightarrow> string \<Rightarrow> string" where
  "trimPrefix s p = (if hasPrefix s p then drop (length p) s else s)"

definition trimSuffix :: "string \<Rightarrow> string \<Rightarrow> string" where
  "trimSuffix s suf = (if hasSuffix s suf then take (length s - length suf) s else s)"

fun contains :: "string \<Rightarrow> string \<Rightarrow> bool" where
  "contains [] sub = hasPrefix [] sub"
| "contains (c # cs) sub = (hasPrefix (c # cs) sub \<or> contains cs sub)"

text \<open>\<open>strings.Split(s, "\n")\<close>: one more piece than there are newlines; the empty
  string gives one empty piece.\<close>

fun split_nl :: "string \<Rightarrow> string list" where
  "split_nl [] = [[]]"
| "split_nl (c # cs) =
     (if c = nl then [] # split_nl cs
      else (case split_nl cs of
              [] \<Rightarrow> [[c]]
            | l # ls \<Rightarrow> (c # l) # ls))"

text \<open>\<open>strings.Join(elems, "\n")\<close>.\<close>

fun join_nl :: "string list \<Rightarrow> string" where
  "join_nl [] = []"
| "join_nl [l] = l"
| "join_nl (l # m # ls) = l @ nl # join_nl (m # ls)"

text \<open>
  White space is \<open>unicode.IsSpace\<close>: the six ASCII characters tab, line feed, vertical
  tab, form feed, carriage return and space, and the code points U+0085, U+00A0, U+1680,
  U+2000 to U+200A, U+2028, U+2029, U+202F, U+205F and U+3000. In a byte string these
  are the UTF-8 encodings below; \<open>spaceWidth s\<close> is the number of bytes of the white-space
  character that \<open>s\<close> starts with, or \<open>0\<close> when it starts with none. Every encoding starts
  with a byte that is no continuation byte, so the byte-level reading agrees with Go's
  decoding of runes, also on malformed input.
\<close>

definition asciiSpace :: "char \<Rightarrow> bool" where
  "asciiSpace c = (c = CHR 0x09 \<or> c = CHR 0x0A \<or> c = CHR 0x0B \<or> c = CHR 0x0C
                   \<or> c = CHR 0x0D \<or> c = CHR 0x20)"

fun spaceWidth :: "string \<Rightarrow> nat" where
  "spaceWidth [] = 0"
| "spaceWidth (c # cs) =
     (if asciiSpace c then 1
      else if c = CHR 0xC2 then
        (case cs of
           d # _ \<Rightarrow> if d = CHR 0x85 \<or> d = CHR 0xA0 then 2 else 0
         | [] \<Rightarrow> 0)
      else if c = CHR 0xE1 then
        (case cs of
           d # e # _ \<Rightarrow> if d = CHR 0x9A \<and> e = CHR 0x80 then 3 else 0
         | _ \<Rightarrow> 0)
      else if c = CHR 0xE2 then
        (case cs of
           d # e # _ \<Rightarrow>
             if d = CHR 0x80 \<and> ((CHR 0x80 \<le> e \<and> e \<le> CHR 0x8A) \<or> e = CHR 0xA8
                                  \<or> e = CHR 0xA9 \<or> e = CHR 0xAF) then 3
             else if d = CHR 0x81 \<and> e = CHR 0x9F then 3
             else 0
         | _ \<Rightarrow> 0)
      else if c = CHR 0xE3 then
        (case cs of
           d # e # _ \<Rightarrow> if d = CHR 0x80 \<and> e = CHR 0x80 then 3 else 0
         | _ \<Rightarrow> 0)
      else 0)"

text \<open>\<open>spaceWidthEnd s\<close>: the same for the white-space character that \<open>s\<close> ends with.\<close>

definition spaceWidthEnd :: "string \<Rightarrow> nat" where
  "spaceWidthEnd s =
     (let n = length s in
      if 1 \<le> n \<and> spaceWidth (drop (n - 1) s) = 1 then 1
      else if 2 \<le> n \<and> spaceWidth (drop (n - 2) s) = 2 then 2
      else if 3 \<le> n \<and> spaceWidth (drop (n - 3) s) = 3 then 3
      else 0)"

function trimLeftSpace :: "string \<Rightarrow> string" where
  "trimLeftSpace s =
     (if spaceWidth s = 0 then s else trimLeftSpace (drop (spaceWidth s) s))"
  by pat_completeness auto
termination
proof (relation "measure length")
  fix s :: string
  assume "spaceWidth s \<noteq> 0"
  then have "s \<noteq> []" by (cases s) auto
  with \<open>spaceWidth s \<noteq> 0\<close> show "(drop (spaceWidth s) s, s) \<in> measure length" by simp
qed simp

declare trimLeftSpace.simps [simp del]

function trimRightSpace :: "string \<Rightarrow> string" where
  "trimRightSpace s =
     (if spaceWidthEnd s = 0 then s
      else trimRightSpace (take (length s - spaceWidthEnd s) s))"
  by pat_completeness auto
termination
  by (relation "measure length") (auto simp: spaceWidthEnd_def Let_def split: if_splits)

declare trimRightSpace.simps [simp del]

definition trimSpace :: "string \<Rightarrow> string" where
  "trimSpace s = trimRightSpace (trimLeftSpace s)"

text \<open>\<open>strings.Fields\<close>: the maximal runs of bytes between white space. \<open>fieldsFrom cur s\<close>
  carries the field being read, reversed, in \<open>cur\<close>.\<close>

function fieldsFrom :: "string \<Rightarrow> string \<Rightarrow> string list" where
  "fieldsFrom cur [] = (if cur = [] then [] else [rev cur])"
| "fieldsFrom cur (c # cs) =
     (if spaceWidth (c # cs) = 0 then fieldsFrom (c # cur) cs
      else (if cur = [] then [] else [rev cur])
           @ fieldsFrom [] (drop (spaceWidth (c # cs)) (c # cs)))"
  by pat_completeness auto
termination
  by (relation "measure (\<lambda>(cur, s). length s)") auto

definition strings_Fields :: "string \<Rightarrow> string list" where
  "strings_Fields s = fieldsFrom [] s"

section \<open>Metadata extractor\<close>

text \<open>\<open>extractMeta\<close>: the first line with the prefix \<open><!-- key: \<close> decides.\<close>

fun extractMeta :: "string list \<Rightarrow> string \<Rightarrow> string" where
  "extractMeta [] key = []"
| "extractMeta (line # lines) key =
     (let prefix = ''<!-- '' @ key @ '': '' in
      if hasPrefix line prefix
      then trimSpace (trimSuffix (trimPrefix line prefix) '' -->'')
      else extractMeta lines key)"

definition metaKeys :: "string list" where
  "metaKeys = [''title:'', ''date:'', ''description:'', ''collection:'']"

text \<open>The inner loop of \<open>extractContent\<close>: \<open>isMeta\<close> becomes true at the first key the
  line contains, and the loop breaks there.\<close>

fun isMetaLoop :: "string \<Rightarrow> string list \<Rightarrow> bool" where
  "isMetaLoop line [] = False"
| "isMetaLoop line (key # keys) =
     (if contains line key then True else isMetaLoop line keys)"

text \<open>The outer loop, with the slice \<open>contentLines\<close> as accumulator.\<close>

fun extractContentLoop :: "string list \<Rightarrow> string list \<Rightarrow> string list" where
  "extractContentLoop contentLines [] = contentLines"
| "extractContentLoop contentLines (line # lines) =
     (if hasPrefix line ''<!--'' \<and> isMetaLoop line metaKeys
      then extractContentLoop contentLines lines
      else extractContentLoop (contentLines @ [line]) lines)"

definition extractContent :: "string list \<Rightarrow> string" where
  "extractContent lines = join_nl (extractContentLoop [] lines)"


section \<open>Paths\<close>

text \<open>\<open>filepath.Base\<close> on a system whose separator is \<open>/\<close>: trailing separators are
  dropped, then the last element is taken; the empty path gives a dot, a path of
  separators only gives one separator.\<close>

definition filepath_Base :: "string \<Rightarrow> string" where
  "filepath_Base path =
     (if path = [] then ''.''
      else let stripped = rev (dropWhile (\<lambda>c. c = CHR ''/'') (rev path));
               base = rev (takeWhile (\<lambda>c. c \<noteq> CHR ''/'') (rev stripped))
           in if base = [] then ''/'' else base)"

fun splitSlash :: "string \<Rightarrow> string list" where
  "splitSlash [] = [[]]"
| "splitSlash (c # cs) =
     (if c = CHR ''/'' then [] # splitSlash cs
      else (case splitSlash cs of
              [] \<Rightarrow> [[c]]
            | l # ls \<Rightarrow> (c # l) # ls))"

fun joinSlash :: "string list \<Rightarrow> string" where
  "joinSlash [] = []"
| "joinSlash [l] = l"
| "joinSlash (l # m # ls) = l @ CHR ''/'' # joinSlash (m # ls)"

text \<open>
  \<open>filepath.Clean\<close> read element by element: empty elements and \<open>.\<close> are dropped, \<open>..\<close>
  removes the element before it when there is one that is not itself \<open>..\<close>, is dropped
  at the root of a rooted path and is kept otherwise. \<open>cleanStep\<close> holds the elements
  written so far, last one first.
\<close>

fun cleanStep :: "bool \<Rightarrow> string list \<Rightarrow> string \<Rightarrow> string list" where
  "cleanStep rooted out el =
     (if el = [] \<or> el = ''.'' then out
      else if el = ''..'' then
        (case out of
           [] \<Rightarrow> if rooted then [] else [''..'']
         | prev # below \<Rightarrow> if prev = ''..'' then ''..'' # out else below)
      else el # out)"

definition filepath_Clean :: "string \<Rightarrow> string" where
  "filepath_Clean path =
     (if path = [] then ''.''
      else let rooted = (hd path = CHR ''/'');
               out = rev (foldl (cleanStep rooted) [] (splitSlash path))
           in if rooted then CHR ''/'' # joinSlash out
              else if out = [] then ''.'' else joinSlash out)"

text \<open>\<open>filepath.Join\<close>: leading empty elements are skipped, the rest is joined with the
  separator and cleaned; with no non-empty element the result is empty.\<close>

definition filepath_Join :: "string list \<Rightarrow> string" where
  "filepath_Join elems =
     (case dropWhile (\<lambda>e. e = []) elems of
        [] \<Rightarrow> []
      | rest \<Rightarrow> filepath_Clean (joinSlash rest))"

section \<open>Dates\<close>

text \<open>
  \<open>time.Parse("2006-01-02", value)\<close> reads four digits, a hyphen, two digits, a hyphen
  and two digits, accepts nothing after them, and rejects a month outside 1 to 12 and
  a day outside the month. The layout names no zone, so the result is midnight UTC of
  that day; the model keeps year, month and day.
\<close>

record date =
  year :: nat
  month :: nat
  day :: nat

definition isDigit :: "char \<Rightarrow> bool" where
  "isDigit c = (CHR ''0'' \<le> c \<and> c \<le> CHR ''9'')"

definition digitVal :: "char \<Rightarrow> nat" where
  "digitVal c = of_char c - 48"

text \<open>\<open>getnum(s, true)\<close>: exactly two digits.\<close>

fun getnum :: "string \<Rightarrow> (nat \<times> string) option" where
  "getnum (a # b # rest) =
     (if isDigit a \<and> isDigit b then Some (digitVal a * 10 + digitVal b, rest) else None)"
| "getnum _ = None"

text \<open>The four-digit year: \<open>atoi\<close> of the first four bytes, which all have to be digits.\<close>

fun getyear :: "string \<Rightarrow> (nat \<times> string) option" where
  "getyear (a # b # c # d # rest) =
     (if isDigit a \<and> isDigit b \<and> isDigit c \<and> isDigit d
      then Some (((digitVal a * 10 + digitVal b) * 10 + digitVal c) * 10 + digitVal d, rest)
      else None)"
| "getyear _ = None"

fun skipHyphen :: "string \<Rightarrow> string option" where
  "skipHyphen (c # rest) = (if c = CHR ''-'' then Some rest else None)"
| "skipHyphen [] = None"

definition isLeap :: "nat \<Rightarrow> bool" where
  "isLeap y = (y mod 4 = 0 \<and> (y mod 100 \<noteq> 0 \<or> y mod 400 = 0))"

definition daysBefore :: "nat list" where
  "daysBefore = [0, 31, 59, 90, 120, 151, 181, 212, 243, 273, 304, 334, 365]"

definition daysIn :: "nat \<Rightarrow> nat \<Rightarrow> nat" where
  "daysIn m y =
     (if m = 2 \<and> isLeap y then 29 else daysBefore ! m - daysBefore ! (m - 1))"

definition time_Parse :: "string \<Rightarrow> date option" where
  "time_Parse value =
     (case getyear value of
        None \<Rightarrow> None
      | Some (y, v1) \<Rightarrow>
     (case skipHyphen v1 of
        None \<Rightarrow> None
      | Some v2 \<Rightarrow>
     (case getnum v2 of
        None \<Rightarrow> None
      | Some (m, v3) \<Rightarrow>
     if m = 0 \<or> 12 < m then None else
     (case skipHyphen v3 of
        None \<Rightarrow> None
      | Some v4 \<Rightarrow>
     (case getnum v4 of
        None \<Rightarrow> None
      | Some (d, v5) \<Rightarrow>
     if v5 \<noteq> [] then None
     else if d < 1 \<or> daysIn m y < d then None
     else Some \<lparr>year = y, month = m, day = d\<rparr>)))))"

definition digitChar :: "nat \<Rightarrow> char" where
  "digitChar n = char_of (48 + n)"

function natDigits :: "nat \<Rightarrow> string" where
  "natDigits n = (if n < 10 then [digitChar n] else natDigits (n div 10) @ [digitChar (n mod 10)])"
  by pat_completeness auto
termination
  by (relation "measure id") auto

declare natDigits.simps [simp del]

text \<open>\<open>appendInt\<close>: decimal, padded with zeros to the given width.\<close>

definition appendInt :: "nat \<Rightarrow> nat \<Rightarrow> string" where
  "appendInt n width = replicate (width - length (natDigits n)) CHR ''0'' @ natDigits n"

definition longMonthNames :: "string list" where
  "longMonthNames = [''January'', ''February'', ''March'', ''April'', ''May'', ''June'',
     ''July'', ''August'', ''September'', ''October'', ''November'', ''December'']"

definition shortMonthNames :: "string list" where
  "shortMonthNames = [''Jan'', ''Feb'', ''Mar'', ''Apr'', ''May'', ''Jun'',
     ''Jul'', ''Aug'', ''Sep'', ''Oct'', ''Nov'', ''Dec'']"

definition shortDayNames :: "string list" where
  "shortDayNames = [''Sun'', ''Mon'', ''Tue'', ''Wed'', ''Thu'', ''Fri'', ''Sat'']"

text \<open>
  The day of the week comes from the count of days since 1 January of year 1, a Monday
  in the proleptic Gregorian calendar that package \<open>time\<close> uses; 0 is Sunday.
\<close>

definition daysSinceYearOne :: "date \<Rightarrow> int" where
  "daysSinceYearOne t =
     (let y = int (year t) - 1
      in 365 * y + y div 4 - y div 100 + y div 400
         + int (daysBefore ! (month t - 1))
         + (if 2 < month t \<and> isLeap (year t) then 1 else 0)
         + int (day t) - 1)"

definition weekday :: "date \<Rightarrow> nat" where
  "weekday t = nat ((daysSinceYearOne t + 1) mod 7)"

text \<open>\<open>t.Format("January 2, 2006")\<close>.\<close>

definition formatLong :: "date \<Rightarrow> string" where
  "formatLong t =
     longMonthNames ! (month t - 1) @ '' '' @ natDigits (day t) @ '', '' @ appendInt (year t) 4"

text \<open>\<open>t.Format(time.RFC1123Z)\<close>, layout \<open>Mon, 02 Jan 2006 15:04:05 -0700\<close>, at midnight
  UTC.\<close>

definition formatRFC1123Z :: "date \<Rightarrow> string" where
  "formatRFC1123Z t =
     shortDayNames ! weekday t @ '', '' @ appendInt (day t) 2 @ '' ''
     @ shortMonthNames ! (month t - 1) @ '' '' @ appendInt (year t) 4
     @ '' 00:00:00 +0000''"


section \<open>Regular expressions of the pipeline\<close>

text \<open>
  The four patterns of \<open>main.go\<close> written as scans. Package \<open>regexp\<close> returns the
  leftmost match and continues after it; all four patterns only ever match non-empty
  text, and their delimiters are ASCII, so the scans work on bytes.

  Pattern \<open><[^>]*>\<close> replaced by nothing: a \<open><\<close> matches up to the next \<open>>\<close>; with no
  \<open>>\<close> to its right it matches nothing and stays.
\<close>

function removeTags :: "string \<Rightarrow> string" where
  "removeTags [] = []"
| "removeTags (c # cs) =
     (if c = CHR ''<'' then
        (case dropWhile (\<lambda>d. d \<noteq> CHR ''>'') cs of
           [] \<Rightarrow> c # removeTags cs
         | _ # rest \<Rightarrow> removeTags rest)
      else c # removeTags cs)"
  by pat_completeness auto
termination
proof (relation "measure length")
  fix c :: char and cs x rest
  assume "dropWhile (\<lambda>d. d \<noteq> CHR ''>'') cs = x # rest"
  then have "length (x # rest) \<le> length cs"
    using length_dropWhile_le [of "\<lambda>d. d \<noteq> CHR ''>''" cs] by simp
  then show "(rest, c # cs) \<in> measure length" by simp
qed auto

text \<open>Pattern \<open>\<^verbatim>\<open>\s+\<close>\<close> replaced by one space; the class \<open>\<^verbatim>\<open>\s\<close>\<close> of package \<open>regexp\<close> is
  tab, line feed, form feed, carriage return and space.\<close>

definition reSpace :: "char \<Rightarrow> bool" where
  "reSpace c = (c = CHR 0x09 \<or> c = CHR 0x0A \<or> c = CHR 0x0C \<or> c = CHR 0x0D \<or> c = CHR 0x20)"

function collapseSpace :: "string \<Rightarrow> string" where
  "collapseSpace [] = []"
| "collapseSpace (c # cs) =
     (if reSpace c then CHR '' '' # collapseSpace (dropWhile reSpace cs)
      else c # collapseSpace cs)"
  by pat_completeness auto
termination
  by (relation "measure length") (auto simp: length_dropWhile_le less_Suc_eq_le)

text \<open>Pattern \<open>[^a-z0-9]+\<close> replaced by one hyphen.\<close>

definition isLowerAlnum :: "char \<Rightarrow> bool" where
  "isLowerAlnum c = ((CHR ''a'' \<le> c \<and> c \<le> CHR ''z'') \<or> (CHR ''0'' \<le> c \<and> c \<le> CHR ''9''))"

function hyphenate :: "string \<Rightarrow> string" where
  "hyphenate [] = []"
| "hyphenate (c # cs) =
     (if \<not> isLowerAlnum c then CHR ''-'' # hyphenate (dropWhile (\<lambda>d. \<not> isLowerAlnum d) cs)
      else c # hyphenate cs)"
  by pat_completeness auto
termination
  by (relation "measure length") (auto simp: length_dropWhile_le less_Suc_eq_le)

text \<open>\<open>strings.Trim(text, "-")\<close>.\<close>

definition trimHyphens :: "string \<Rightarrow> string" where
  "trimHyphens s =
     rev (dropWhile (\<lambda>c. c = CHR ''-'') (rev (dropWhile (\<lambda>c. c = CHR ''-'') s)))"

definition stripHTML :: "string \<Rightarrow> string" where
  "stripHTML s = trimSpace (collapseSpace (removeTags s))"

text \<open>
  \<open>generateID\<close>. \<open>strings.ToLower\<close> maps every code point through the case tables of
  Unicode, which are not part of this development: it is the parameter \<open>lower\<close>.
\<close>

definition generateID :: "(string \<Rightarrow> string) \<Rightarrow> string \<Rightarrow> string" where
  "generateID lower text0 =
     (let text1 = removeTags text0;
          text2 = lower text1;
          text3 = trimSpace text2;
          text4 = hyphenate text3
      in trimHyphens text4)"

section \<open>Heading indexer\<close>

record TOCItem =
  ID :: string
  Text :: string
  Level :: int

text \<open>
  Patterns \<open><h2>(.*?)</h2>\<close> and \<open><h3>(.*?)</h3>\<close>. The dot matches every character but
  the line feed and the group is not greedy, so after the opening tag the match ends at
  the first closing tag, if one comes before the end of the line. \<open>findClose\<close> returns
  the text of the group and what follows the closing tag.
\<close>

fun findClose :: "string \<Rightarrow> string \<Rightarrow> (string \<times> string) option" where
  "findClose closing [] = (if hasPrefix [] closing then Some ([], []) else None)"
| "findClose closing (c # cs) =
     (if hasPrefix (c # cs) closing then Some ([], drop (length closing) (c # cs))
      else if c = nl then None
      else (case findClose closing cs of
              None \<Rightarrow> None
            | Some (inner, rest) \<Rightarrow> Some (c # inner, rest)))"

definition openTag :: "string \<Rightarrow> string" where
  "openTag tag = ''<'' @ tag @ ''>''"

definition closeTag :: "string \<Rightarrow> string" where
  "closeTag tag = ''</'' @ tag @ ''>''"

text \<open>The replacement \<open>fmt.Sprintf(`<h2 id="%s">%s</h2>`, id, text)\<close>.\<close>

definition headingWithID :: "string \<Rightarrow> string \<Rightarrow> string \<Rightarrow> string" where
  "headingWithID tag ident inner =
     ''<'' @ tag @ '' id='' @ [dquote] @ ident @ [dquote] @ ''>'' @ inner @ closeTag tag"

text \<open>
  \<open>ReplaceAllStringFunc\<close> with the closure of \<open>processContentWithTOC\<close>: every match, from
  left to right, appends its entry to \<open>toc\<close> and is replaced by the heading that carries
  the identifier. The function returns the new content and the new \<open>toc\<close>.
\<close>

function replaceHeadings ::
  "(string \<Rightarrow> string) \<Rightarrow> string \<Rightarrow> int \<Rightarrow> TOCItem list \<Rightarrow> string \<Rightarrow> string \<times> TOCItem list"
where
  "replaceHeadings lower tag level toc [] = ([], toc)"
| "replaceHeadings lower tag level toc (c # cs) =
     (if hasPrefix (c # cs) (openTag tag) then
        (case findClose (closeTag tag) (drop (length (openTag tag)) (c # cs)) of
           Some (inner, rest) \<Rightarrow>
             (let ident = generateID lower inner;
                  (out, toc') = replaceHeadings lower tag level
                                  (toc @ [\<lparr>ID = ident, Text = inner, Level = level\<rparr>]) rest
              in (headingWithID tag ident inner @ out, toc'))
         | None \<Rightarrow>
             (let (out, toc') = replaceHeadings lower tag level toc cs in (c # out, toc')))
      else (let (out, toc') = replaceHeadings lower tag level toc cs in (c # out, toc')))"
  by pat_completeness auto
termination
proof -
  have shorter: "length rest \<le> length s" if "findClose closing s = Some (inner, rest)"
    for closing s inner rest
    using that
    by (induction s arbitrary: inner rest)
       (auto split: if_splits option.splits prod.splits simp: le_Suc_eq)
  have step: "length rest < Suc (length cs)"
    if "findClose (closeTag tag) (drop (length (openTag tag)) (c # cs)) = Some (inner, rest)"
    for tag c cs inner rest
  proof -
    have "length rest \<le> length (drop (length (openTag tag)) (c # cs))"
      using that by (rule shorter)
    also have "\<dots> < Suc (length cs)"
      by (simp add: openTag_def)
    finally show ?thesis .
  qed
  show ?thesis
    by (relation "measure (\<lambda>(lower, tag, level, toc, s). length s)") (auto dest: step)
qed

definition processContentWithTOC ::
  "(string \<Rightarrow> string) \<Rightarrow> string \<Rightarrow> string \<times> TOCItem list"
where
  "processContentWithTOC lower content =
     (let toc = [];
          (content2, toc2) = replaceHeadings lower ''h2'' 2 toc content;
          (content3, toc3) = replaceHeadings lower ''h3'' 3 toc2 content2
      in (content3, toc3))"



section \<open>Package sort\<close>

text \<open>
  \<open>sort.Slice\<close> is documented to sort the slice by the comparison it is given, and not to
  be stable. This section writes out the algorithm behind it since Go 1.19, the
  pattern-defeating quicksort of \<open>sort/zsortfunc.go\<close>, function by function. The slice is a list that every function
  returns updated. The algorithm keeps every index it reads inside the slice and at or
  above \<open>0\<close>, so indices are natural numbers.
\<close>

unbundle bit_operations_syntax

definition swap :: "'a list \<Rightarrow> nat \<Rightarrow> nat \<Rightarrow> 'a list" where
  "swap data i j = data[i := data ! j, j := data ! i]"

definition lessAt :: "('a \<Rightarrow> 'a \<Rightarrow> bool) \<Rightarrow> 'a list \<Rightarrow> nat \<Rightarrow> nat \<Rightarrow> bool" where
  "lessAt lt data i j = lt (data ! i) (data ! j)"

text \<open>\<open>insertionSort_func\<close>: the inner loop moves the element at \<open>j\<close> down while it is
  less than its left neighbour.\<close>

fun insertionInner :: "('a \<Rightarrow> 'a \<Rightarrow> bool) \<Rightarrow> nat \<Rightarrow> 'a list \<Rightarrow> nat \<Rightarrow> 'a list" where
  "insertionInner lt a data 0 = data"
| "insertionInner lt a data (Suc j) =
     (if Suc j > a \<and> lessAt lt data (Suc j) j
      then insertionInner lt a (swap data (Suc j) j) j
      else data)"

definition insertionSort_func :: "('a \<Rightarrow> 'a \<Rightarrow> bool) \<Rightarrow> 'a list \<Rightarrow> nat \<Rightarrow> nat \<Rightarrow> 'a list" where
  "insertionSort_func lt data a b = foldl (insertionInner lt a) data [a + 1..<b]"

text \<open>\<open>siftDown_func\<close> and \<open>heapSort_func\<close>.\<close>

function siftDown_func ::
  "('a \<Rightarrow> 'a \<Rightarrow> bool) \<Rightarrow> 'a list \<Rightarrow> nat \<Rightarrow> nat \<Rightarrow> nat \<Rightarrow> 'a list"
where
  "siftDown_func lt data lo hi first =
     (let root = lo;
          child = 2 * root + 1
      in if child \<ge> hi then data
         else (let child2 = (if child + 1 < hi \<and> lessAt lt data (first + child) (first + child + 1)
                             then child + 1 else child)
               in if \<not> lessAt lt data (first + root) (first + child2) then data
                  else siftDown_func lt (swap data (first + root) (first + child2)) child2 hi first))"
  by pat_completeness auto
termination
  by (relation "measure (\<lambda>(lt, data, lo, hi, first). hi - lo)") (auto simp: Let_def)

declare siftDown_func.simps [simp del]

definition heapSort_func :: "('a \<Rightarrow> 'a \<Rightarrow> bool) \<Rightarrow> 'a list \<Rightarrow> nat \<Rightarrow> nat \<Rightarrow> 'a list" where
  "heapSort_func lt data a b =
     (let first = a;
          lo = 0;
          hi = b - a;
          data1 = foldl (\<lambda>d i. siftDown_func lt d i hi first) data (rev [0..<Suc ((hi - 1) div 2)]);
          data2 = foldl (\<lambda>d i. siftDown_func lt (swap d first (first + i)) lo i first)
                    data1 (rev [0..<hi])
      in data2)"

text \<open>\<open>choosePivot_func\<close> with \<open>order2_func\<close>, \<open>median_func\<close> and \<open>medianAdjacent_func\<close>; the
  counter \<open>swaps\<close> is passed through.\<close>

datatype sortedHint = unknownHint | increasingHint | decreasingHint

definition order2_func ::
  "('a \<Rightarrow> 'a \<Rightarrow> bool) \<Rightarrow> 'a list \<Rightarrow> nat \<Rightarrow> nat \<Rightarrow> nat \<Rightarrow> nat \<times> nat \<times> nat"
where
  "order2_func lt data a b swaps =
     (if lessAt lt data b a then (b, a, swaps + 1) else (a, b, swaps))"

definition median_func ::
  "('a \<Rightarrow> 'a \<Rightarrow> bool) \<Rightarrow> 'a list \<Rightarrow> nat \<Rightarrow> nat \<Rightarrow> nat \<Rightarrow> nat \<Rightarrow> nat \<times> nat"
where
  "median_func lt data a b c swaps =
     (let (a1, b1, swaps1) = order2_func lt data a b swaps;
          (b2, c2, swaps2) = order2_func lt data b1 c swaps1;
          (a3, b3, swaps3) = order2_func lt data a1 b2 swaps2
      in (b3, swaps3))"

definition medianAdjacent_func ::
  "('a \<Rightarrow> 'a \<Rightarrow> bool) \<Rightarrow> 'a list \<Rightarrow> nat \<Rightarrow> nat \<Rightarrow> nat \<times> nat"
where
  "medianAdjacent_func lt data a swaps = median_func lt data (a - 1) a (a + 1) swaps"

definition choosePivot_func ::
  "('a \<Rightarrow> 'a \<Rightarrow> bool) \<Rightarrow> 'a list \<Rightarrow> nat \<Rightarrow> nat \<Rightarrow> nat \<times> sortedHint"
where
  "choosePivot_func lt data a b =
     (let l = b - a;
          i = a + l div 4 * 1;
          j = a + l div 4 * 2;
          k = a + l div 4 * 3;
          (j', swaps) =
            (if l \<ge> 8 then
               (if l \<ge> 50 then
                  (let (i1, s1) = medianAdjacent_func lt data i 0;
                       (j1, s2) = medianAdjacent_func lt data j s1;
                       (k1, s3) = medianAdjacent_func lt data k s2
                   in median_func lt data i1 j1 k1 s3)
                else median_func lt data i j k 0)
             else (j, 0))
      in if swaps = 0 then (j', increasingHint)
         else if swaps = 12 then (j', decreasingHint)
         else (j', unknownHint))"

function reverseRangeLoop :: "'a list \<Rightarrow> nat \<Rightarrow> nat \<Rightarrow> 'a list" where
  "reverseRangeLoop data i j =
     (if i < j then reverseRangeLoop (swap data i j) (i + 1) (j - 1) else data)"
  by pat_completeness auto
termination
  by (relation "measure (\<lambda>(data, i, j). j - i)") auto

declare reverseRangeLoop.simps [simp del]

definition reverseRange_func :: "'a list \<Rightarrow> nat \<Rightarrow> nat \<Rightarrow> 'a list" where
  "reverseRange_func data a b = reverseRangeLoop data a (b - 1)"

text \<open>\<open>breakPatterns_func\<close> with the generator \<open>xorshift\<close> and \<open>nextPowerOfTwo\<close>; \<open>uint\<close> has
  64 bits.\<close>

definition xorshift_Next :: "64 word \<Rightarrow> 64 word" where
  "xorshift_Next r =
     (let r1 = r XOR push_bit 13 r;
          r2 = r1 XOR drop_bit 7 r1;
          r3 = r2 XOR push_bit 17 r2
      in r3)"

fun bits_Len :: "nat \<Rightarrow> nat" where
  "bits_Len n = (if n = 0 then 0 else Suc (bits_Len (n div 2)))"

declare bits_Len.simps [simp del]

definition nextPowerOfTwo :: "nat \<Rightarrow> 64 word" where
  "nextPowerOfTwo len = push_bit (bits_Len len) 1"

fun breakPatternsLoop ::
  "nat \<Rightarrow> nat \<Rightarrow> 64 word \<Rightarrow> nat \<Rightarrow> 64 word \<Rightarrow> 'a list \<Rightarrow> nat list \<Rightarrow> 'a list"
where
  "breakPatternsLoop a len modulus idx random data [] = data"
| "breakPatternsLoop a len modulus idx random data (i # is) =
     (let random' = xorshift_Next random;
          other0 = unat (random' AND (modulus - 1));
          other = (if other0 \<ge> len then other0 - len else other0)
      in breakPatternsLoop a len modulus idx random' (swap data (idx + i) (a + other)) is)"

definition breakPatterns_func :: "'a list \<Rightarrow> nat \<Rightarrow> nat \<Rightarrow> 'a list" where
  "breakPatterns_func data a b =
     (let len = b - a
      in if len \<ge> 8 then
           (let random = of_nat len;
                modulus = nextPowerOfTwo len;
                idx = a + (len div 4) * 2 - 1
            in breakPatternsLoop a len modulus idx random data [0, 1, 2])
         else data)"

text \<open>\<open>partialInsertionSort_func\<close>: at most five out-of-order pairs are repaired, and
  none on a slice shorter than fifty; the result says whether the slice is sorted.\<close>

function advanceSorted :: "('a \<Rightarrow> 'a \<Rightarrow> bool) \<Rightarrow> 'a list \<Rightarrow> nat \<Rightarrow> nat \<Rightarrow> nat" where
  "advanceSorted lt data b i =
     (if i < b \<and> \<not> lessAt lt data i (i - 1) then advanceSorted lt data b (i + 1) else i)"
  by pat_completeness auto
termination
  by (relation "measure (\<lambda>(lt, data, b, i). b - i)") auto

declare advanceSorted.simps [simp del]

fun shiftLeft :: "('a \<Rightarrow> 'a \<Rightarrow> bool) \<Rightarrow> 'a list \<Rightarrow> nat \<Rightarrow> 'a list" where
  "shiftLeft lt data 0 = data"
| "shiftLeft lt data (Suc j) =
     (if \<not> lessAt lt data (Suc j) j then data
      else shiftLeft lt (swap data (Suc j) j) j)"

function shiftRight :: "('a \<Rightarrow> 'a \<Rightarrow> bool) \<Rightarrow> nat \<Rightarrow> 'a list \<Rightarrow> nat \<Rightarrow> 'a list" where
  "shiftRight lt b data j =
     (if j < b then
        (if \<not> lessAt lt data j (j - 1) then data
         else shiftRight lt b (swap data j (j - 1)) (j + 1))
      else data)"
  by pat_completeness auto
termination
  by (relation "measure (\<lambda>(lt, b, data, j). b - j)") auto

declare shiftRight.simps [simp del]

fun partialInsertionLoop ::
  "('a \<Rightarrow> 'a \<Rightarrow> bool) \<Rightarrow> nat \<Rightarrow> nat \<Rightarrow> nat \<Rightarrow> nat \<Rightarrow> 'a list \<Rightarrow> bool \<times> 'a list"
where
  "partialInsertionLoop lt a b 0 i data = (False, data)"
| "partialInsertionLoop lt a b (Suc steps) i data =
     (let i1 = advanceSorted lt data b i
      in if i1 = b then (True, data)
         else if b - a < 50 then (False, data)
         else (let data1 = swap data i1 (i1 - 1);
                   data2 = (if i1 - a \<ge> 2 then shiftLeft lt data1 (i1 - 1) else data1);
                   data3 = (if b - i1 \<ge> 2 then shiftRight lt b data2 (i1 + 1) else data2)
               in partialInsertionLoop lt a b steps i1 data3))"

definition partialInsertionSort_func ::
  "('a \<Rightarrow> 'a \<Rightarrow> bool) \<Rightarrow> 'a list \<Rightarrow> nat \<Rightarrow> nat \<Rightarrow> bool \<times> 'a list"
where
  "partialInsertionSort_func lt data a b = partialInsertionLoop lt a b 5 (a + 1) data"

text \<open>
  The two scans of \<open>partition_func\<close>: \<open>i\<close> goes up while the element is less than the
  pivot at \<open>a\<close>, \<open>j\<close> goes down while it is not. In every call \<open>i\<close> is above \<open>a\<close>, so
  \<open>j\<close> stops at \<open>0\<close> at the latest.
\<close>

function scanUpLess :: "('a \<Rightarrow> 'a \<Rightarrow> bool) \<Rightarrow> 'a list \<Rightarrow> nat \<Rightarrow> nat \<Rightarrow> nat \<Rightarrow> nat" where
  "scanUpLess lt data a j i =
     (if i \<le> j \<and> lessAt lt data i a then scanUpLess lt data a j (i + 1) else i)"
  by pat_completeness auto
termination
  by (relation "measure (\<lambda>(lt, data, a, j, i). Suc j - i)") auto

declare scanUpLess.simps [simp del]

fun scanDownNotLess :: "('a \<Rightarrow> 'a \<Rightarrow> bool) \<Rightarrow> 'a list \<Rightarrow> nat \<Rightarrow> nat \<Rightarrow> nat \<Rightarrow> nat" where
  "scanDownNotLess lt data a i 0 = 0"
| "scanDownNotLess lt data a i (Suc j) =
     (if i \<le> Suc j \<and> \<not> lessAt lt data (Suc j) a then scanDownNotLess lt data a i j
      else Suc j)"

text \<open>The closing loop of \<open>partition_func\<close>; it returns the slice and \<open>j\<close>.\<close>

function partitionLoop ::
  "('a \<Rightarrow> 'a \<Rightarrow> bool) \<Rightarrow> nat \<Rightarrow> 'a list \<Rightarrow> nat \<Rightarrow> nat \<Rightarrow> 'a list \<times> nat"
where
  "partitionLoop lt a data i j =
     (let i1 = scanUpLess lt data a j i;
          j1 = scanDownNotLess lt data a i1 j
      in if i1 > j1 then (data, j1)
         else partitionLoop lt a (swap data i1 j1) (i1 + 1) (j1 - 1))"
  by pat_completeness auto
termination
proof -
  have up: "i \<le> scanUpLess lt data a j i" for lt :: "'a \<Rightarrow> 'a \<Rightarrow> bool" and data a j i
    by (induction lt data a j i rule: scanUpLess.induct)
       (subst scanUpLess.simps, auto)
  have down: "scanDownNotLess lt data a i j \<le> j" for lt :: "'a \<Rightarrow> 'a \<Rightarrow> bool" and data a j i
    by (induction j) auto
  show ?thesis
  proof (relation "measure (\<lambda>(lt, a, data, i, j). Suc j - i)")
    fix lt :: "'a \<Rightarrow> 'a \<Rightarrow> bool" and a data i j i1 j1
    assume "i1 = scanUpLess lt data a j i" "j1 = scanDownNotLess lt data a i1 j"
      and "\<not> j1 < i1"
    then have "i \<le> i1" "j1 \<le> j" "i1 \<le> j1"
      using up [of i lt data a j] down [of lt data a i1 j] by auto
    then show "((lt, a, swap data i1 j1, i1 + 1, j1 - 1), (lt, a, data, i, j))
               \<in> measure (\<lambda>(lt, a, data, i, j). Suc j - i)"
      by auto
  qed simp
qed

declare partitionLoop.simps [simp del]

definition partition_func ::
  "('a \<Rightarrow> 'a \<Rightarrow> bool) \<Rightarrow> 'a list \<Rightarrow> nat \<Rightarrow> nat \<Rightarrow> nat \<Rightarrow> 'a list \<times> nat \<times> bool"
where
  "partition_func lt data a b pivot =
     (let data1 = swap data a pivot;
          i = scanUpLess lt data1 a (b - 1) (a + 1);
          j = scanDownNotLess lt data1 a i (b - 1)
      in if i > j then (swap data1 j a, j, True)
         else (let data2 = swap data1 i j;
                   (data3, j3) = partitionLoop lt a data2 (i + 1) (j - 1)
               in (swap data3 j3 a, j3, False)))"

text \<open>\<open>partitionEqual_func\<close>: the elements equal to the pivot go to the left; it returns
  the slice and \<open>i\<close>.\<close>

function scanUpNotGreater :: "('a \<Rightarrow> 'a \<Rightarrow> bool) \<Rightarrow> 'a list \<Rightarrow> nat \<Rightarrow> nat \<Rightarrow> nat \<Rightarrow> nat" where
  "scanUpNotGreater lt data a j i =
     (if i \<le> j \<and> \<not> lessAt lt data a i then scanUpNotGreater lt data a j (i + 1) else i)"
  by pat_completeness auto
termination
  by (relation "measure (\<lambda>(lt, data, a, j, i). Suc j - i)") auto

declare scanUpNotGreater.simps [simp del]

fun scanDownGreater :: "('a \<Rightarrow> 'a \<Rightarrow> bool) \<Rightarrow> 'a list \<Rightarrow> nat \<Rightarrow> nat \<Rightarrow> nat \<Rightarrow> nat" where
  "scanDownGreater lt data a i 0 = 0"
| "scanDownGreater lt data a i (Suc j) =
     (if i \<le> Suc j \<and> lessAt lt data a (Suc j) then scanDownGreater lt data a i j
      else Suc j)"

function partitionEqualLoop ::
  "('a \<Rightarrow> 'a \<Rightarrow> bool) \<Rightarrow> nat \<Rightarrow> 'a list \<Rightarrow> nat \<Rightarrow> nat \<Rightarrow> 'a list \<times> nat"
where
  "partitionEqualLoop lt a data i j =
     (let i1 = scanUpNotGreater lt data a j i;
          j1 = scanDownGreater lt data a i1 j
      in if i1 > j1 then (data, i1)
         else partitionEqualLoop lt a (swap data i1 j1) (i1 + 1) (j1 - 1))"
  by pat_completeness auto
termination
proof -
  have up: "i \<le> scanUpNotGreater lt data a j i"
    for lt :: "'a \<Rightarrow> 'a \<Rightarrow> bool" and data a j i
    by (induction lt data a j i rule: scanUpNotGreater.induct)
       (subst scanUpNotGreater.simps, auto)
  have down: "scanDownGreater lt data a i j \<le> j"
    for lt :: "'a \<Rightarrow> 'a \<Rightarrow> bool" and data a j i
    by (induction j) auto
  show ?thesis
  proof (relation "measure (\<lambda>(lt, a, data, i, j). Suc j - i)")
    fix lt :: "'a \<Rightarrow> 'a \<Rightarrow> bool" and a data i j i1 j1
    assume "i1 = scanUpNotGreater lt data a j i" "j1 = scanDownGreater lt data a i1 j"
      and "\<not> j1 < i1"
    then have "i \<le> i1" "j1 \<le> j" "i1 \<le> j1"
      using up [of i lt data a j] down [of lt data a i1 j] by auto
    then show "((lt, a, swap data i1 j1, i1 + 1, j1 - 1), (lt, a, data, i, j))
               \<in> measure (\<lambda>(lt, a, data, i, j). Suc j - i)"
      by auto
  qed simp
qed

declare partitionEqualLoop.simps [simp del]

definition partitionEqual_func ::
  "('a \<Rightarrow> 'a \<Rightarrow> bool) \<Rightarrow> 'a list \<Rightarrow> nat \<Rightarrow> nat \<Rightarrow> nat \<Rightarrow> 'a list \<times> nat"
where
  "partitionEqual_func lt data a b pivot =
     partitionEqualLoop lt a (swap data a pivot) (a + 1) (b - 1)"

text \<open>
  \<open>pdqsort_func\<close>. The loop of the source is the recursion on the new bounds; the call
  on the shorter side starts with both flags set.
\<close>

function pdqsort_func ::
  "('a \<Rightarrow> 'a \<Rightarrow> bool) \<Rightarrow> 'a list \<Rightarrow> nat \<Rightarrow> nat \<Rightarrow> nat \<Rightarrow> bool \<Rightarrow> bool \<Rightarrow> 'a list"
where
  "pdqsort_func lt data a b limit wasBalanced wasPartitioned =
     (let len = b - a
      in if len \<le> 12 then insertionSort_func lt data a b
         else if limit = 0 then heapSort_func lt data a b
         else
           (let data1 = (if \<not> wasBalanced then breakPatterns_func data a b else data);
                limit1 = (if \<not> wasBalanced then limit - 1 else limit);
                (pivot0, hint0) = choosePivot_func lt data1 a b;
                data2 = (if hint0 = decreasingHint then reverseRange_func data1 a b else data1);
                pivot = (if hint0 = decreasingHint then (b - 1) - (pivot0 - a) else pivot0);
                hint = (if hint0 = decreasingHint then increasingHint else hint0);
                (sorted, data3) =
                  (if wasBalanced \<and> wasPartitioned \<and> hint = increasingHint
                   then partialInsertionSort_func lt data2 a b
                   else (False, data2))
            in if sorted then data3
               else if a > 0 \<and> \<not> lessAt lt data3 (a - 1) pivot then
                 (let (data4, mid) = partitionEqual_func lt data3 a b pivot
                  in pdqsort_func lt data4 mid b limit1 wasBalanced wasPartitioned)
               else
                 (let (data4, mid, alreadyPartitioned) = partition_func lt data3 a b pivot;
                      leftLen = mid - a;
                      rightLen = b - mid;
                      balanceThreshold = len div 8
                  in if leftLen < rightLen then
                       pdqsort_func lt (pdqsort_func lt data4 a mid limit1 True True)
                         (mid + 1) b limit1 (leftLen \<ge> balanceThreshold) alreadyPartitioned
                     else
                       pdqsort_func lt (pdqsort_func lt data4 (mid + 1) b limit1 True True)
                         a mid limit1 (rightLen \<ge> balanceThreshold) alreadyPartitioned)))"
  by pat_completeness auto
termination
proof -
  have up: "i \<le> scanUpLess lt data a j i" for lt :: "'a \<Rightarrow> 'a \<Rightarrow> bool" and data a j i
    by (induction lt data a j i rule: scanUpLess.induct) (subst scanUpLess.simps, auto)
  have down_le: "scanDownNotLess lt data a i j \<le> j"
    for lt :: "'a \<Rightarrow> 'a \<Rightarrow> bool" and data a j i
    by (induction j) auto
  have down_ge: "a \<le> scanDownNotLess lt data a i j" if "a < i" "a \<le> j"
    for lt :: "'a \<Rightarrow> 'a \<Rightarrow> bool" and data a j i
    using that by (induction j) auto
  have loop: "a \<le> snd (partitionLoop lt a data i j) \<and> snd (partitionLoop lt a data i j) \<le> j"
    if "a < i" "a \<le> j" for lt :: "'a \<Rightarrow> 'a \<Rightarrow> bool" and data a j i
    using that
  proof (induction lt a data i j rule: partitionLoop.induct)
    case (1 lt a data i j)
    define i1 where "i1 = scanUpLess lt data a j i"
    define j1 where "j1 = scanDownNotLess lt data a i1 j"
    have i1: "a < i1" using up [of i lt data a j] "1.prems" by (simp add: i1_def)
    have j1: "a \<le> j1" "j1 \<le> j"
      using down_ge [OF i1 "1.prems"(2)] down_le by (simp_all add: j1_def)
    show ?case
    proof (cases "i1 > j1")
      case True
      then show ?thesis
        using j1 by (subst (1 2) partitionLoop.simps) (simp add: Let_def i1_def j1_def)
    next
      case False
      then have "a < i1 + 1" "a \<le> j1 - 1" using i1 by auto
      then have "a \<le> snd (partitionLoop lt a (swap data i1 j1) (i1 + 1) (j1 - 1))
                 \<and> snd (partitionLoop lt a (swap data i1 j1) (i1 + 1) (j1 - 1)) \<le> j1 - 1"
        using "1.IH" [OF i1_def j1_def] False by simp
      then show ?thesis
        using False j1
        by (subst (1 2) partitionLoop.simps)
           (auto simp add: Let_def i1_def [symmetric] j1_def [symmetric])
    qed
  qed
  have part: "a \<le> mid \<and> mid < b"
    if "(data', mid, ap) = partition_func lt data a b pivot" "a < b"
    for lt :: "'a \<Rightarrow> 'a \<Rightarrow> bool" and data data' a b pivot mid ap
  proof -
    define data1 where "data1 = swap data a pivot"
    define i where "i = scanUpLess lt data1 a (b - 1) (a + 1)"
    define j where "j = scanDownNotLess lt data1 a i (b - 1)"
    have i: "a < i" using up [of "a + 1" lt data1 a "b - 1"] by (simp add: i_def)
    have j: "a \<le> j" "j \<le> b - 1"
      using down_ge [OF i, of "b - 1" lt data1] down_le [of lt data1 a i "b - 1"] that(2)
      by (simp_all add: j_def)
    have mid: "mid = fst (snd (partition_func lt data a b pivot))"
      using that(1) by (metis fst_conv snd_conv)
    have "fst (snd (partition_func lt data a b pivot))
          = (if i > j then j else snd (partitionLoop lt a (swap data1 i j) (i + 1) (j - 1)))"
      unfolding partition_func_def Let_def data1_def i_def j_def
      by (simp split: prod.splits)
    with mid have mid': "mid = (if i > j then j
                                else snd (partitionLoop lt a (swap data1 i j) (i + 1) (j - 1)))"
      by simp
    show ?thesis
    proof (cases "i > j")
      case True
      then show ?thesis using mid' j that(2) by simp
    next
      case False
      moreover have "a < i + 1" "a \<le> j - 1" using i False by auto
      ultimately have "a \<le> mid \<and> mid \<le> j - 1"
        using loop [of a "i + 1" "j - 1" lt "swap data1 i j"] mid' by simp
      then show ?thesis using j that(2) by auto
    qed
  qed
  have upe: "i \<le> scanUpNotGreater lt data a j i"
    for lt :: "'a \<Rightarrow> 'a \<Rightarrow> bool" and data a j i
    by (induction lt data a j i rule: scanUpNotGreater.induct)
       (subst scanUpNotGreater.simps, auto)
  have loope: "i \<le> snd (partitionEqualLoop lt a data i j)"
    for lt :: "'a \<Rightarrow> 'a \<Rightarrow> bool" and data a j i
  proof (induction lt a data i j rule: partitionEqualLoop.induct)
    case (1 lt a data i j)
    define i1 where "i1 = scanUpNotGreater lt data a j i"
    define j1 where "j1 = scanDownGreater lt data a i1 j"
    have i1: "i \<le> i1" using upe [of i lt data a j] by (simp add: i1_def)
    show ?case
    proof (cases "i1 > j1")
      case True
      then show ?thesis
        using i1 by (subst partitionEqualLoop.simps) (simp add: Let_def i1_def j1_def)
    next
      case False
      then have "i1 + 1 \<le> snd (partitionEqualLoop lt a (swap data i1 j1) (i1 + 1) (j1 - 1))"
        using "1.IH" [OF i1_def j1_def] by simp
      then show ?thesis
        using False i1
        by (subst partitionEqualLoop.simps) (simp add: Let_def i1_def [symmetric] j1_def [symmetric])
    qed
  qed
  have parte: "a < mid" if "(data', mid) = partitionEqual_func lt data a b pivot"
    for lt :: "'a \<Rightarrow> 'a \<Rightarrow> bool" and data data' a b pivot mid
  proof -
    have "mid = snd (partitionEqual_func lt data a b pivot)"
      using that by (metis snd_conv)
    then show ?thesis
      using loope [of "a + 1" lt a "swap data a pivot" "b - 1"]
      by (simp add: partitionEqual_func_def)
  qed
  have part_long: "\<not> b - a \<le> 12 \<longrightarrow> a \<le> mid \<and> mid < b"
    if "(data', mid, ap) = partition_func lt data a b pivot"
    for lt :: "'a \<Rightarrow> 'a \<Rightarrow> bool" and data data' a b pivot mid ap
    using part [OF that] by auto
  show ?thesis
    by (relation "measure (\<lambda>(lt, data, a, b, limit, wb, wp). b - a)")
       (auto dest!: parte part_long)
qed

declare pdqsort_func.simps [simp del]

text \<open>\<open>sort.Slice\<close> with the comparison on elements: \<open>less(i, j)\<close> of the source compares
  the elements at \<open>i\<close> and \<open>j\<close>.\<close>

definition sort_Slice :: "('a \<Rightarrow> 'a \<Rightarrow> bool) \<Rightarrow> 'a list \<Rightarrow> 'a list" where
  "sort_Slice lt x =
     (let n = length x;
          limit = bits_Len n
      in pdqsort_func lt x 0 n limit True True)"
section \<open>Data model and environment\<close>

record Post =
  Slug :: string
  Title :: string
  Description :: string
  Date :: string
  RawDate :: string
  Collection :: string
  CollectionTitle :: string
  CollectionDescription :: string
  CollectionIndex :: int
  CollectionTotal :: int
  Content :: string
  ReadTimeInMinutes :: int
  TOC :: "TOCItem list"
  PageType :: string

record Collection =
  Slug :: string
  Title :: string
  Description :: string
  DescriptionText :: string
  Posts :: "Post list"
  PageType :: string

record Item =
  Title :: string
  Link :: string
  Description :: string
  PubDate :: string
  GUID :: string

text \<open>The local type \<open>postInfo\<close> of \<open>getCollectionPosition\<close>.\<close>

record postInfo =
  infoSlug :: string
  infoDate :: string

datatype error = PathError string

text \<open>One call of the function that \<open>filepath.WalkDir\<close> is given: the path, whether the
  entry is a directory, and the error of the walk at this entry, if any.\<close>

record WalkEntry =
  wPath :: string
  wIsDir :: bool
  wErr :: "error option"

text \<open>
  What the pipeline takes from outside:
  \<^item> \<open>readFile\<close> is \<open>os.ReadFile\<close> on the file system;
  \<^item> \<open>walkDir root\<close> is the sequence of calls that \<open>filepath.WalkDir\<close> makes on \<open>root\<close>, in
    its order, as long as the function it calls returns no error;
  \<^item> \<open>today\<close> is \<open>time.Now().Format("2006-01-02")\<close>;
  \<^item> \<open>toLower\<close> is \<open>strings.ToLower\<close>.
\<close>

record Env =
  readFile :: "string \<Rightarrow> error + string"
  walkDir :: "string \<Rightarrow> WalkEntry list"
  today :: string
  toLower :: "string \<Rightarrow> string"

section \<open>Collection ranker\<close>

text \<open>The walk of \<open>getCollectionPosition\<close>: its function returns \<open>nil\<close> in every branch, so
  the walk visits every entry, and \<open>postsInCollection\<close> grows by the matching files.\<close>

fun collectionWalk :: "Env \<Rightarrow> string \<Rightarrow> postInfo list \<Rightarrow> WalkEntry list \<Rightarrow> postInfo list" where
  "collectionWalk env collectionSlug postsInCollection [] = postsInCollection"
| "collectionWalk env collectionSlug postsInCollection (e # es) =
     (if wErr e \<noteq> None \<or> wIsDir e \<or> \<not> hasSuffix (wPath e) ''.html''
      then collectionWalk env collectionSlug postsInCollection es
      else (case readFile env (wPath e) of
              Inl err \<Rightarrow> collectionWalk env collectionSlug postsInCollection es
            | Inr content \<Rightarrow>
                (let lines = split_nl content in
                 if extractMeta lines ''collection'' = collectionSlug
                 then (let slug = trimSuffix (filepath_Base (wPath e)) ''.html'';
                           date = extractMeta lines ''date''
                       in collectionWalk env collectionSlug
                            (postsInCollection @ [\<lparr>infoSlug = slug, infoDate = date\<rparr>]) es)
                 else collectionWalk env collectionSlug postsInCollection es)))"

text \<open>The loop that looks for \<open>currentSlug\<close>: \<open>i + 1\<close> at the first hit, \<open>0\<close> without one.\<close>

fun findIndex :: "string \<Rightarrow> nat \<Rightarrow> postInfo list \<Rightarrow> int" where
  "findIndex currentSlug i [] = 0"
| "findIndex currentSlug i (p # ps) =
     (if infoSlug p = currentSlug then int i + 1 else findIndex currentSlug (Suc i) ps)"

definition getCollectionPosition :: "Env \<Rightarrow> string \<Rightarrow> string \<Rightarrow> string \<Rightarrow> int \<times> int" where
  "getCollectionPosition env currentSlug collectionSlug currentDate =
     (let walked = collectionWalk env collectionSlug [] (walkDir env ''posts'');
          postsInCollection = sort_Slice (\<lambda>a b. infoDate a < infoDate b) walked;
          total = int (length postsInCollection);
          index = findIndex currentSlug 0 postsInCollection
      in (index, total))"

section \<open>Content assembler\<close>

text \<open>
  \<open>int(math.Max(float64(words)/200, 1.0))\<close>. The quotient is taken in the reals: a
  word count below \<open>2^53\<close> is a \<open>float64\<close> exactly, and the rounded quotient lies on the
  same side of every integer as the exact one, which is at least \<open>1/200\<close> away from
  the next integer above it, more than the rounding error.
\<close>

definition readTime :: "nat \<Rightarrow> int" where
  "readTime words = \<lfloor>max (real words / 200) 1\<rfloor>"

definition loadPost :: "Env \<Rightarrow> string \<Rightarrow> error + Post" where
  "loadPost env slug =
     (case readFile env (filepath_Join [''posts'', slug @ ''.html'']) of
        Inl err \<Rightarrow> Inl err
      | Inr content \<Rightarrow>
          (let lines = split_nl content;
               rawContent = extractContent lines;
               (processedContent, toc) = processContentWithTOC (toLower env) rawContent;
               rawDate0 = extractMeta lines ''date'';
               rawDate = (if rawDate0 = [] then today env else rawDate0);
               formattedDate = (case time_Parse rawDate of
                                  Some t \<Rightarrow> formatLong t
                                | None \<Rightarrow> rawDate);
               collectionSlug = extractMeta lines ''collection'';
               (collectionTitle, collectionDescription, collectionIndex, collectionTotal) =
                 (if collectionSlug \<noteq> [] then
                    (let (title, description) =
                           (case readFile env
                                   (filepath_Join [''collections'', collectionSlug @ ''.html'']) of
                              Inr collectionContent \<Rightarrow>
                                (let collectionLines = split_nl collectionContent
                                 in (extractMeta collectionLines ''title'',
                                     trimSpace (extractContent collectionLines)))
                            | Inl err \<Rightarrow> ([], []));
                         (index, total) = getCollectionPosition env slug collectionSlug rawDate
                     in (title, description, index, total))
                  else ([], [], 0, 0));
               post = \<lparr>Post.Slug = slug,
                       Post.Title = extractMeta lines ''title'',
                       Post.Description = extractMeta lines ''description'',
                       Date = formattedDate,
                       RawDate = rawDate,
                       Collection = collectionSlug,
                       CollectionTitle = collectionTitle,
                       CollectionDescription = collectionDescription,
                       CollectionIndex = collectionIndex,
                       CollectionTotal = collectionTotal,
                       Content = processedContent,
                       ReadTimeInMinutes = 0,
                       TOC = toc,
                       Post.PageType = []\<rparr>;
               post2 = (if Post.Title post = [] then post\<lparr>Post.Title := slug\<rparr> else post);
               words = length (strings_Fields (Content post2))
           in Inr (post2\<lparr>ReadTimeInMinutes := readTime words\<rparr>)))"

section \<open>Repository scanner\<close>

text \<open>The walk of \<open>loadPosts\<close>: the first error, of the walk or of \<open>loadPost\<close>, ends it.\<close>

fun loadPostsWalk :: "Env \<Rightarrow> Post list \<Rightarrow> WalkEntry list \<Rightarrow> error + Post list" where
  "loadPostsWalk env posts [] = Inr posts"
| "loadPostsWalk env posts (e # es) =
     (case wErr e of
        Some err \<Rightarrow> Inl err
      | None \<Rightarrow>
          if wIsDir e \<or> \<not> hasSuffix (wPath e) ''.html'' then loadPostsWalk env posts es
          else (let slug = trimSuffix (filepath_Base (wPath e)) ''.html''
                in case loadPost env slug of
                     Inl err \<Rightarrow> Inl err
                   | Inr post \<Rightarrow> loadPostsWalk env (posts @ [post]) es))"

definition loadPosts :: "Env \<Rightarrow> error + Post list" where
  "loadPosts env =
     (case loadPostsWalk env [] (walkDir env ''posts'') of
        Inl err \<Rightarrow> Inl err
      | Inr posts \<Rightarrow> Inr (sort_Slice (\<lambda>a b. RawDate a > RawDate b) posts))"

text \<open>The loop of \<open>loadCollection\<close> over the posts, appending the members.\<close>

fun memberLoop :: "string \<Rightarrow> Post list \<Rightarrow> Post list \<Rightarrow> Post list" where
  "memberLoop slug members [] = members"
| "memberLoop slug members (post # posts) =
     (if Collection post = slug then memberLoop slug (members @ [post]) posts
      else memberLoop slug members posts)"

definition loadCollection :: "Env \<Rightarrow> string \<Rightarrow> error + Collection" where
  "loadCollection env slug =
     (case readFile env (filepath_Join [''collections'', slug @ ''.html'']) of
        Inl err \<Rightarrow> Inl err
      | Inr content \<Rightarrow>
          (let lines = split_nl content;
               description = trimSpace (extractContent lines);
               collection = \<lparr>Collection.Slug = slug,
                             Collection.Title = extractMeta lines ''title'',
                             Collection.Description = description,
                             DescriptionText = stripHTML description,
                             Posts = [],
                             Collection.PageType = []\<rparr>
           in case loadPosts env of
                Inl err \<Rightarrow> Inl err
              | Inr posts \<Rightarrow> Inr (collection\<lparr>Posts := memberLoop slug (Posts collection) posts\<rparr>)))"

section \<open>Feed items\<close>

text \<open>The body of the loop that \<open>buildRSSFeed\<close> and \<open>handleRSS\<close> share word for word:
  the item of one post.\<close>

definition feedItem :: "string \<Rightarrow> Post \<Rightarrow> Item" where
  "feedItem baseURL post =
     (let pubDate = (case time_Parse (RawDate post) of
                       Some t \<Rightarrow> formatRFC1123Z t
                     | None \<Rightarrow> []);
          description = (if Post.Description post = [] then Content post
                         else Post.Description post)
      in \<lparr>Item.Title = Post.Title post,
          Link = baseURL @ ''/post/'' @ Post.Slug post,
          Item.Description = description,
          PubDate = pubDate,
          GUID = baseURL @ ''/post/'' @ Post.Slug post\<rparr>)"

fun feedItems :: "string \<Rightarrow> Item list \<Rightarrow> Post list \<Rightarrow> Item list" where
  "feedItems baseURL items [] = items"
| "feedItems baseURL items (post # posts) =
     feedItems baseURL (items @ [feedItem baseURL post]) posts"

text \<open>The items that \<open>buildRSSFeed\<close> puts into the channel, and those of \<open>handleRSS\<close>, which
  loads the posts first and answers with the error when that fails.\<close>

definition buildRSSFeed_items :: "string \<Rightarrow> Post list \<Rightarrow> Item list" where
  "buildRSSFeed_items baseURL posts = feedItems baseURL [] posts"

definition handleRSS_items :: "Env \<Rightarrow> string \<Rightarrow> error + Item list" where
  "handleRSS_items env baseURL =
     (case loadPosts env of
        Inl err \<Rightarrow> Inl err
      | Inr posts \<Rightarrow> Inr (feedItems baseURL [] posts))"

section \<open>The specification's words\<close>

text \<open>The properties that the specification states in its own terms, for comparison
  with the functions above.\<close>

definition startsWith :: "string \<Rightarrow> string \<Rightarrow> bool" where
  "startsWith l p = (\<exists>r. l = p @ r)"

definition hasSubstring :: "string \<Rightarrow> string \<Rightarrow> bool" where
  "hasSubstring l k = (\<exists>before after. l = before @ k @ after)"

text \<open>A line that begins with \<open><!--\<close> and contains one of the four reserved keys.\<close>

definition isMetaLine :: "string \<Rightarrow> bool" where
  "isMetaLine l =
     (startsWith l ''<!--''
      \<and> (hasSubstring l ''title:'' \<or> hasSubstring l ''date:''
         \<or> hasSubstring l ''description:'' \<or> hasSubstring l ''collection:''))"

section \<open>A small site\<close>

text \<open>
  A content directory for concrete runs: three posts of the collection \<open>series\<close>, dated
  as in the specification's example, and a fourth post without title line, with a date
  that does not parse and a collection whose file does not exist. \<open>strings.ToLower\<close> on
  ASCII text changes the letters \<open>A\<close> to \<open>Z\<close> only.
\<close>

definition asciiToLower :: "string \<Rightarrow> string" where
  "asciiToLower s =
     map (\<lambda>c. if CHR ''A'' \<le> c \<and> c \<le> CHR ''Z'' then char_of (of_char c + (32::nat)) else c) s"

definition demoFiles :: "(string \<times> string) list" where
  "demoFiles =
     [(''posts/alpha.html'',
       ''<!-- title: Alpha -->'' @ [nl] @ ''<!-- date: 2024-01-01 -->'' @ [nl]
       @ ''<!-- collection: series -->'' @ [nl] @ ''<h3>Later</h3>'' @ [nl] @ ''<h2>First Part</h2>''),
      (''posts/beta.html'',
       ''<!-- title: Beta -->'' @ [nl] @ ''<!-- date: 2024-02-01 -->'' @ [nl]
       @ ''<!-- collection: series -->'' @ [nl] @ ''<p>one two</p>''),
      (''posts/gamma.html'',
       ''<!-- title: Gamma -->'' @ [nl] @ ''<!-- date: 2024-03-01 -->'' @ [nl]
       @ ''<!-- collection: series -->'' @ [nl] @ ''<p>x</p>''),
      (''posts/omega.html'',
       ''<!-- date: unknown -->'' @ [nl] @ ''<!-- collection: ghost -->'' @ [nl] @ ''text''),
      (''collections/series.html'',
       ''<!-- title: The Series -->'' @ [nl] @ ''<p>About</p>'')]"

definition fileEntry :: "string \<Rightarrow> WalkEntry" where
  "fileEntry p = \<lparr>wPath = p, wIsDir = False, wErr = None\<rparr>"

definition dirEntry :: "string \<Rightarrow> WalkEntry" where
  "dirEntry p = \<lparr>wPath = p, wIsDir = True, wErr = None\<rparr>"

definition readFrom :: "(string \<times> string) list \<Rightarrow> string \<Rightarrow> error + string" where
  "readFrom files p = (case map_of files p of Some content \<Rightarrow> Inr content | None \<Rightarrow> Inl (PathError p))"

definition demoEnv :: Env where
  "demoEnv =
     \<lparr>readFile = readFrom demoFiles,
      walkDir = (\<lambda>root. if root = ''posts''
                         then [dirEntry ''posts'', fileEntry ''posts/alpha.html'',
                               fileEntry ''posts/beta.html'', fileEntry ''posts/gamma.html'',
                               fileEntry ''posts/omega.html'']
                         else []),
      today = ''2026-11-01'',
      toLower = asciiToLower\<rparr>"

definition endsWith :: "string \<Rightarrow> string \<Rightarrow> bool" where
  "endsWith s suf = (\<exists>r. s = r @ suf)"

text \<open>The text after the prefix of a metadata line, without the closing \<open> -->\<close> when the
  line ends with it.\<close>

definition withoutClosing :: "string \<Rightarrow> string" where
  "withoutClosing rest = (if endsWith rest '' -->'' then take (length rest - length '' -->'') rest else rest)"


text \<open>
  The post files of a collection: the entries of the walk of \<open>posts\<close> that are files
  named \<open>*.html\<close>, can be read and carry the collection slug in their metadata; and what
  the ranker keeps of each, its slug and its raw date.
\<close>

definition inCollection :: "Env \<Rightarrow> string \<Rightarrow> WalkEntry \<Rightarrow> bool" where
  "inCollection env collectionSlug e =
     (wErr e = None \<and> \<not> wIsDir e \<and> endsWith (wPath e) ''.html''
      \<and> (case readFile env (wPath e) of
            Inr content \<Rightarrow> extractMeta (split_nl content) ''collection'' = collectionSlug
          | Inl err \<Rightarrow> False))"

definition memberInfo :: "Env \<Rightarrow> WalkEntry \<Rightarrow> postInfo" where
  "memberInfo env e =
     \<lparr>infoSlug = trimSuffix (filepath_Base (wPath e)) ''.html'',
      infoDate = (case readFile env (wPath e) of
                    Inr content \<Rightarrow> extractMeta (split_nl content) ''date''
                  | Inl err \<Rightarrow> [])\<rparr>"

definition collectionMembers :: "Env \<Rightarrow> string \<Rightarrow> postInfo list" where
  "collectionMembers env collectionSlug =
     map (memberInfo env) (filter (inCollection env collectionSlug) (walkDir env ''posts''))"

section \<open>A site with equal dates\<close>



definition plainPost :: "string \<Rightarrow> string \<Rightarrow> string \<Rightarrow> Post" where
  "plainPost slug rawDate date =
     \<lparr>Post.Slug = slug, Post.Title = slug, Post.Description = [], Date = date,
      RawDate = rawDate, Collection = [], CollectionTitle = [], CollectionDescription = [],
      CollectionIndex = 0, CollectionTotal = 0, Content = [], ReadTimeInMinutes = 1,
      TOC = [], Post.PageType = []\<rparr>"








section \<open>Headings in document order\<close>

text \<open>
  The matches of a heading pattern in a text, from left to right, as package \<open>regexp\<close>
  finds them: the offset of each match and the text of its group. The search goes on
  behind the end of a match.
\<close>

function headingMatches :: "string \<Rightarrow> nat \<Rightarrow> string \<Rightarrow> (nat \<times> string) list" where
  "headingMatches tag pos [] = []"
| "headingMatches tag pos (c # cs) =
     (if hasPrefix (c # cs) (openTag tag) then
        (case findClose (closeTag tag) (drop (length (openTag tag)) (c # cs)) of
           Some (inner, rest) \<Rightarrow>
             (pos, inner)
             # headingMatches tag
                 (pos + length (openTag tag) + length inner + length (closeTag tag)) rest
         | None \<Rightarrow> headingMatches tag (pos + 1) cs)
      else headingMatches tag (pos + 1) cs)"
  by pat_completeness auto
termination
proof -
  have shorter: "length rest \<le> length s" if "findClose closing s = Some (inner, rest)"
    for closing s inner rest
    using that
    by (induction s arbitrary: inner rest)
       (auto split: if_splits option.splits prod.splits simp: le_Suc_eq)
  have step: "length rest < Suc (length cs)"
    if "findClose (closeTag tag) (drop (length (openTag tag)) (c # cs)) = Some (inner, rest)"
    for tag c cs inner rest
  proof -
    have "length rest \<le> length (drop (length (openTag tag)) (c # cs))"
      using that by (rule shorter)
    also have "\<dots> < Suc (length cs)"
      by (simp add: openTag_def)
    finally show ?thesis .
  qed
  show ?thesis
    by (relation "measure (\<lambda>(tag, pos, s). length s)") (auto dest: step)
qed

text \<open>The outline entry of a heading text.\<close>

definition tocEntry :: "(string \<Rightarrow> string) \<Rightarrow> int \<Rightarrow> string \<Rightarrow> TOCItem" where
  "tocEntry lower level inner = \<lparr>ID = generateID lower inner, Text = inner, Level = level\<rparr>"

section \<open>Dates in ISO form\<close>

text \<open>A date of the calendar with a year of four digits, and its text \<open>YYYY-MM-DD\<close>.\<close>

definition validDate :: "date \<Rightarrow> bool" where
  "validDate t =
     (year t \<le> 9999 \<and> 1 \<le> month t \<and> month t \<le> 12
      \<and> 1 \<le> day t \<and> day t \<le> daysIn (month t) (year t))"

definition isoDateString :: "date \<Rightarrow> string" where
  "isoDateString t =
     appendInt (year t) 4 @ ''-'' @ appendInt (month t) 2 @ ''-'' @ appendInt (day t) 2"

text \<open>
  White space as \<open>strings.TrimSpace\<close> has it: the UTF-8 encodings of the characters with
  Unicode's White Space property, U+0009 to U+000D, U+0020, U+0085, U+00A0, U+1680,
  U+2000 to U+200A, U+2028, U+2029, U+202F, U+205F and U+3000. A string is white space
  when it is a sequence of them.
\<close>

definition spaceEncodings :: "string set" where
  "spaceEncodings =
     {[CHR 0x09], [CHR 0x0A], [CHR 0x0B], [CHR 0x0C], [CHR 0x0D], [CHR 0x20],
      [CHR 0xC2, CHR 0x85], [CHR 0xC2, CHR 0xA0],
      [CHR 0xE1, CHR 0x9A, CHR 0x80],
      [CHR 0xE2, CHR 0x80, CHR 0xA8], [CHR 0xE2, CHR 0x80, CHR 0xA9],
      [CHR 0xE2, CHR 0x80, CHR 0xAF], [CHR 0xE2, CHR 0x81, CHR 0x9F],
      [CHR 0xE3, CHR 0x80, CHR 0x80]}
     \<union> {[CHR 0xE2, CHR 0x80, e] | e. CHR 0x80 \<le> e \<and> e \<le> CHR 0x8A}"

definition whiteSpace :: "string \<Rightarrow> bool" where
  "whiteSpace s = (\<exists>ws. set ws \<subseteq> spaceEncodings \<and> s = concat ws)"

text \<open>
  The publish date in words: the English three-letter names of the day of the week and
  of the month, the day of the month with two digits, the year with four, midnight,
  zone \<open>+0000\<close>. The calendar is the Gregorian one: the day after a date, with the usual
  lengths of the months and leap years.
\<close>

definition decimal :: "nat \<Rightarrow> char" where
  "decimal k = ''0123456789'' ! k"

definition dayAbbrev :: "nat \<Rightarrow> string" where
  "dayAbbrev w =
     (if w = 0 then ''Sun'' else if w = 1 then ''Mon'' else if w = 2 then ''Tue''
      else if w = 3 then ''Wed'' else if w = 4 then ''Thu'' else if w = 5 then ''Fri''
      else ''Sat'')"

definition monthAbbrev :: "nat \<Rightarrow> string" where
  "monthAbbrev m =
     (if m = 1 then ''Jan'' else if m = 2 then ''Feb'' else if m = 3 then ''Mar''
      else if m = 4 then ''Apr'' else if m = 5 then ''May'' else if m = 6 then ''Jun''
      else if m = 7 then ''Jul'' else if m = 8 then ''Aug'' else if m = 9 then ''Sep''
      else if m = 10 then ''Oct'' else if m = 11 then ''Nov'' else ''Dec'')"

definition rfc1123zText :: "nat \<Rightarrow> date \<Rightarrow> string" where
  "rfc1123zText w t =
     dayAbbrev w @ '', '' @ [decimal (day t div 10), decimal (day t mod 10)] @ '' ''
     @ monthAbbrev (month t) @ '' ''
     @ [decimal (year t div 1000), decimal (year t div 100 mod 10),
        decimal (year t div 10 mod 10), decimal (year t mod 10)]
     @ '' 00:00:00 +0000''"

definition leapYear :: "nat \<Rightarrow> bool" where
  "leapYear y = (4 dvd y \<and> (\<not> 100 dvd y \<or> 400 dvd y))"

definition monthLength :: "nat \<Rightarrow> nat \<Rightarrow> nat" where
  "monthLength m y =
     (if m = 2 then (if leapYear y then 29 else 28)
      else if m = 4 \<or> m = 6 \<or> m = 9 \<or> m = 11 then 30
      else 31)"

definition nextDay :: "date \<Rightarrow> date" where
  "nextDay t =
     (if day t < monthLength (month t) (year t)
      then \<lparr>year = year t, month = month t, day = day t + 1\<rparr>
      else if month t < 12 then \<lparr>year = year t, month = month t + 1, day = 1\<rparr>
      else \<lparr>year = year t + 1, month = 1, day = 1\<rparr>)"

text \<open>The text \<open>YYYY-MM-DD\<close> of a date, digit by digit.\<close>

definition isoText :: "date \<Rightarrow> string" where
  "isoText t =
     [decimal (year t div 1000), decimal (year t div 100 mod 10),
      decimal (year t div 10 mod 10), decimal (year t mod 10)]
     @ ''-'' @ [decimal (month t div 10), decimal (month t mod 10)]
     @ ''-'' @ [decimal (day t div 10), decimal (day t mod 10)]"





section \<open>Facts about the string functions\<close>

lemma hasPrefix_iff: "hasPrefix s p \<longleftrightarrow> (\<exists>r. s = p @ r)"
  by (induction s p rule: hasPrefix.induct) auto

lemma contains_iff: "contains s sub \<longleftrightarrow> (\<exists>before after. s = before @ sub @ after)"
proof (induction s)
  case Nil
  show ?case by (auto simp: hasPrefix_iff)
next
  case (Cons c cs)
  show ?case
  proof
    assume "contains (c # cs) sub"
    then consider "hasPrefix (c # cs) sub" | "contains cs sub" by auto
    then show "\<exists>before after. c # cs = before @ sub @ after"
    proof cases
      case 1
      then obtain r where "c # cs = sub @ r" by (auto simp: hasPrefix_iff)
      then have "c # cs = [] @ sub @ r" by simp
      then show ?thesis by blast
    next
      case 2
      then obtain b a where "cs = b @ sub @ a" using Cons.IH by auto
      then have "c # cs = (c # b) @ sub @ a" by simp
      then show ?thesis by blast
    qed
  next
    assume "\<exists>before after. c # cs = before @ sub @ after"
    then obtain b a where ba: "c # cs = b @ sub @ a" by auto
    show "contains (c # cs) sub"
    proof (cases b)
      case Nil
      with ba have "hasPrefix (c # cs) sub" by (auto simp: hasPrefix_iff)
      then show ?thesis by simp
    next
      case (Cons d b')
      with ba have "cs = b' @ sub @ a" by simp
      then have "contains cs sub" using Cons.IH by blast
      then show ?thesis by simp
    qed
  qed
qed

section \<open>Metadata extractor: the body\<close>

lemma isMetaLoop_iff: "isMetaLoop l ks \<longleftrightarrow> (\<exists>k \<in> set ks. contains l k)"
  by (induction ks) auto

lemma isMetaLine_iff: "isMetaLine l \<longleftrightarrow> hasPrefix l ''<!--'' \<and> isMetaLoop l metaKeys"
  by (simp add: isMetaLine_def startsWith_def hasSubstring_def hasPrefix_iff isMetaLoop_iff
        contains_iff metaKeys_def)

lemma extractContentLoop_filter:
  "extractContentLoop acc ls = acc @ filter (\<lambda>l. \<not> isMetaLine l) ls"
  by (induction ls arbitrary: acc) (simp_all add: isMetaLine_iff)

lemma join_nl_concat: "join_nl (k # ks) = k @ concat (map (\<lambda>l. CHR 0x0A # l) ks)"
  by (induction ks arbitrary: k) (simp_all add: nl_def)

text \<open>
  Claim C3. For every list of lines, \<open>extractContent\<close> removes exactly the lines that
  begin with \<open><!--\<close> and contain at least one of \<open>title:\<close>, \<open>date:\<close>, \<open>description:\<close> and
  \<open>collection:\<close>, and returns the other lines unchanged, in their order, joined with
  line feeds: the first of them, then every further one after a line feed; the empty
  string when no line is left. In the example, the first and the last line go, and the
  comment without a key stays.
\<close>

theorem extractContent_removes_meta_lines:
  "extractContent ls
   = (case filter (\<lambda>l. \<not> isMetaLine l) ls of
        [] \<Rightarrow> []
      | k # ks \<Rightarrow> k @ concat (map (\<lambda>l. CHR 0x0A # l) ks))"
  by (simp add: extractContent_def extractContentLoop_filter join_nl_concat split: list.splits)

theorem extractContent_removes_meta_lines_witness:
  "extractContent [''<!-- title: T -->'', ''<p>a</p>'', ''<!-- note -->'', ''b'',
                   ''<!-- updated, date: y -->'']
   = ''<p>a</p>'' @ [CHR 0x0A] @ ''<!-- note -->'' @ [CHR 0x0A] @ ''b''
   \<and> extractContent [''<!-- date: 2024-01-01 -->''] = []"
proof -
  have one: "filter (\<lambda>l. \<not> isMetaLine l)
          [''<!-- title: T -->'', ''<p>a</p>'', ''<!-- note -->'', ''b'', ''<!-- updated, date: y -->'']
        = [''<p>a</p>'', ''<!-- note -->'', ''b'']"
    unfolding isMetaLine_iff by code_simp
  have two: "filter (\<lambda>l. \<not> isMetaLine l) [''<!-- date: 2024-01-01 -->''] = []"
    unfolding isMetaLine_iff by code_simp
  show ?thesis
    using extractContent_removes_meta_lines [of "[''<!-- title: T -->'', ''<p>a</p>'',
            ''<!-- note -->'', ''b'', ''<!-- updated, date: y -->'']"]
          extractContent_removes_meta_lines [of "[''<!-- date: 2024-01-01 -->'']"]
    unfolding one two by simp
qed

section \<open>Metadata extractor: the values\<close>

lemma hasSuffix_iff: "hasSuffix s suf \<longleftrightarrow> (\<exists>r. s = r @ suf)"
proof -
  have "hasSuffix s suf \<longleftrightarrow> (\<exists>r. rev s = rev suf @ r)"
    by (simp add: hasSuffix_def hasPrefix_iff)
  also have "\<dots> \<longleftrightarrow> (\<exists>r. s = r @ suf)"
  proof
    assume "\<exists>r. rev s = rev suf @ r"
    then obtain r where "rev s = rev suf @ r" ..
    then have "rev (rev s) = rev (rev suf @ r)" by simp
    then have "s = rev r @ suf" by simp
    then show "\<exists>r. s = r @ suf" ..
  next
    assume "\<exists>r. s = r @ suf"
    then obtain r where "s = r @ suf" ..
    then have "rev s = rev suf @ rev r" by simp
    then show "\<exists>r. rev s = rev suf @ r" ..
  qed
  finally show ?thesis .
qed

lemma startsWith_hasPrefix: "startsWith l p \<longleftrightarrow> hasPrefix l p"
  by (simp add: startsWith_def hasPrefix_iff)

lemma withoutClosing_eq: "withoutClosing rest = trimSuffix rest '' -->''"
  by (simp add: withoutClosing_def trimSuffix_def endsWith_def hasSuffix_iff)

lemma extractMeta_none:
  "\<forall>l \<in> set lines. \<not> startsWith l (''<!-- '' @ key @ '': '') \<Longrightarrow> extractMeta lines key = []"
  by (induction lines) (simp_all add: startsWith_def hasPrefix_iff)

lemma extractMeta_first:
  "\<forall>l \<in> set before. \<not> startsWith l (''<!-- '' @ key @ '': '')
   \<Longrightarrow> extractMeta (before @ ((''<!-- '' @ key @ '': '') @ rest) # after) key
       = trimSpace (withoutClosing rest)"
proof (induction before)
  case Nil
  have "hasPrefix ((''<!-- '' @ key @ '': '') @ rest) (''<!-- '' @ key @ '': '')"
    unfolding hasPrefix_iff by blast
  then show ?case
    by (simp add: withoutClosing_eq trimPrefix_def del: append_assoc)
next
  case (Cons l before)
  then show ?case by (simp add: startsWith_def hasPrefix_iff)
qed

lemma loadPost_title_default:
  assumes "readFile env (filepath_Join [''posts'', slug @ ''.html'']) = Inr content"
    and "extractMeta (split_nl content) ''title'' = []"
  shows "\<exists>post. loadPost env slug = Inr post \<and> Post.Title post = slug"
  using assms by (simp add: loadPost_def Let_def split: prod.splits)

lemma spaceWidth_le_length: "spaceWidth s \<le> length s"
  by (cases s) (auto split: list.splits)

lemma spaceWidth_append: "spaceWidth s \<noteq> 0 \<Longrightarrow> spaceWidth (s @ r) = spaceWidth s"
  by (cases s) (auto split: list.splits if_splits)

lemma spaceWidth_encoding: "e \<in> spaceEncodings \<Longrightarrow> spaceWidth (e @ r) = length e \<and> 0 < length e \<and> length e \<le> 3"
  unfolding spaceEncodings_def by (auto simp: asciiSpace_def)

lemma spaceWidth_take: "spaceWidth s \<noteq> 0 \<Longrightarrow> take (spaceWidth s) s \<in> spaceEncodings"
  unfolding spaceEncodings_def
  by (cases s) (auto simp: asciiSpace_def split: list.splits if_splits)

lemma whiteSpace_Nil: "whiteSpace []"
  unfolding whiteSpace_def by (rule exI [of _ "[]"]) simp

lemma whiteSpace_one: "e \<in> spaceEncodings \<Longrightarrow> whiteSpace e"
  unfolding whiteSpace_def by (rule exI [of _ "[e]"]) simp

lemma whiteSpace_append: "whiteSpace a \<Longrightarrow> whiteSpace b \<Longrightarrow> whiteSpace (a @ b)"
proof -
  assume "whiteSpace a" "whiteSpace b"
  then obtain wa wb where "set wa \<subseteq> spaceEncodings" "a = concat wa"
    "set wb \<subseteq> spaceEncodings" "b = concat wb"
    unfolding whiteSpace_def by blast
  then have "set (wa @ wb) \<subseteq> spaceEncodings \<and> a @ b = concat (wa @ wb)" by simp
  then show ?thesis unfolding whiteSpace_def by blast
qed

lemma trimLeftSpace_spec:
  "\<exists>pre. s = pre @ trimLeftSpace s \<and> whiteSpace pre \<and> spaceWidth (trimLeftSpace s) = 0"
proof (induction s rule: trimLeftSpace.induct)
  case (1 s)
  show ?case
  proof (cases "spaceWidth s = 0")
    case True
    then have "trimLeftSpace s = s" by (subst trimLeftSpace.simps) simp
    with True whiteSpace_Nil show ?thesis by simp
  next
    case False
    define n where "n = spaceWidth s"
    from "1.IH" [OF False] obtain pre where pre: "drop n s = pre @ trimLeftSpace (drop n s)"
      "whiteSpace pre" "spaceWidth (trimLeftSpace (drop n s)) = 0"
      unfolding n_def by blast
    have unfold: "trimLeftSpace s = trimLeftSpace (drop n s)"
      using False by (subst trimLeftSpace.simps) (simp add: n_def)
    have "take n s \<in> spaceEncodings" unfolding n_def using False by (rule spaceWidth_take)
    then have "whiteSpace (take n s)" by (rule whiteSpace_one)
    then have one: "whiteSpace (take n s @ pre)" using pre(2) by (rule whiteSpace_append)
    have "s = take n s @ drop n s" by simp
    also have "\<dots> = take n s @ pre @ trimLeftSpace (drop n s)" using pre(1) by simp
    finally have two: "s = (take n s @ pre) @ trimLeftSpace s" by (simp add: unfold)
    have three: "spaceWidth (trimLeftSpace s) = 0" using pre(3) by (simp add: unfold)
    from two one three show ?thesis by (intro exI [of _ "take n s @ pre"] conjI)
  qed
qed

lemma spaceWidthEnd_spec:
  "spaceWidthEnd s \<noteq> 0 \<Longrightarrow>
     spaceWidthEnd s \<le> length s
     \<and> spaceWidth (drop (length s - spaceWidthEnd s) s) = spaceWidthEnd s"
  by (auto simp: spaceWidthEnd_def Let_def split: if_splits)

lemma trimRightSpace_spec:
  "\<exists>suf. s = trimRightSpace s @ suf \<and> whiteSpace suf \<and> spaceWidthEnd (trimRightSpace s) = 0"
proof (induction s rule: trimRightSpace.induct)
  case (1 s)
  show ?case
  proof (cases "spaceWidthEnd s = 0")
    case True
    then have "trimRightSpace s = s" by (subst trimRightSpace.simps) simp
    with True whiteSpace_Nil show ?thesis by simp
  next
    case False
    define n where "n = spaceWidthEnd s"
    define e where "e = drop (length s - n) s"
    define p where "p = take (length s - n) s"
    from spaceWidthEnd_spec [OF False] have n: "n \<le> length s" "spaceWidth e = n"
      by (simp_all add: n_def e_def)
    have len: "length e = n" using n(1) by (simp add: e_def)
    have "n \<noteq> 0" using False by (simp add: n_def)
    then have "take (spaceWidth e) e \<in> spaceEncodings" using n(2) by (intro spaceWidth_take) simp
    then have "e \<in> spaceEncodings" using n(2) len by simp
    then have ws: "whiteSpace e" by (rule whiteSpace_one)
    from "1.IH" [OF False] obtain suf where suf: "p = trimRightSpace p @ suf" "whiteSpace suf"
      "spaceWidthEnd (trimRightSpace p) = 0"
      unfolding p_def n_def by blast
    have unfold: "trimRightSpace s = trimRightSpace p"
      using False by (subst trimRightSpace.simps) (simp add: p_def n_def)
    have "s = p @ e" by (simp add: p_def e_def)
    also have "\<dots> = (trimRightSpace p @ suf) @ e" using suf(1) by simp
    finally have "s = trimRightSpace p @ (suf @ e)" by simp
    then have one: "s = trimRightSpace s @ (suf @ e)" unfolding unfold .
    have two: "whiteSpace (suf @ e)" using suf(2) ws by (rule whiteSpace_append)
    have three: "spaceWidthEnd (trimRightSpace s) = 0" using suf(3) by (simp add: unfold)
    from one two three show ?thesis by (intro exI [of _ "suf @ e"] conjI)
  qed
qed

lemma no_space_at_start: "spaceWidth t = 0 \<Longrightarrow> e \<in> spaceEncodings \<Longrightarrow> \<not> startsWith t e"
  using spaceWidth_encoding [of e] by (auto simp: startsWith_def)

lemma no_space_at_end:
  assumes "spaceWidthEnd t = 0" "e \<in> spaceEncodings"
  shows "\<not> endsWith t e"
proof
  assume "endsWith t e"
  then obtain r where t: "t = r @ e" by (auto simp: endsWith_def)
  from spaceWidth_encoding [OF assms(2), of "[]"]
  have e: "spaceWidth e = length e" "0 < length e" "length e \<le> 3" by simp_all
  have d: "drop (length t - length e) t = e" by (simp add: t)
  have l: "length e \<le> length t" by (simp add: t)
  from e(2,3) consider "length e = 1" | "length e = 2" | "length e = 3" by linarith
  then have "spaceWidthEnd t \<noteq> 0"
  proof cases
    case 1
    with d e l show ?thesis by (simp add: spaceWidthEnd_def Let_def)
  next
    case 2
    with d e l show ?thesis by (simp add: spaceWidthEnd_def Let_def)
  next
    case 3
    with d e l show ?thesis by (simp add: spaceWidthEnd_def Let_def)
  qed
  with assms(1) show False by simp
qed

lemma trimSpace_spec:
  "(\<exists>pre suf. s = pre @ trimSpace s @ suf \<and> whiteSpace pre \<and> whiteSpace suf)
   \<and> (\<forall>e \<in> spaceEncodings. \<not> startsWith (trimSpace s) e \<and> \<not> endsWith (trimSpace s) e)"
proof -
  obtain pre where pre: "s = pre @ trimLeftSpace s" "whiteSpace pre" "spaceWidth (trimLeftSpace s) = 0"
    using trimLeftSpace_spec by blast
  obtain suf where suf: "trimLeftSpace s = trimSpace s @ suf" "whiteSpace suf"
    "spaceWidthEnd (trimSpace s) = 0"
    using trimRightSpace_spec [of "trimLeftSpace s"] unfolding trimSpace_def by blast
  have start: "spaceWidth (trimSpace s) = 0"
  proof (rule ccontr)
    assume "spaceWidth (trimSpace s) \<noteq> 0"
    then have "spaceWidth (trimSpace s @ suf) \<noteq> 0" by (simp add: spaceWidth_append)
    with pre(3) suf(1) show False by simp
  qed
  have "s = pre @ trimSpace s @ suf" using pre(1) suf(1) by simp
  then have one: "\<exists>pre suf. s = pre @ trimSpace s @ suf \<and> whiteSpace pre \<and> whiteSpace suf"
    using pre(2) suf(2) by blast
  have two: "\<forall>e \<in> spaceEncodings. \<not> startsWith (trimSpace s) e \<and> \<not> endsWith (trimSpace s) e"
    using no_space_at_start [OF start] no_space_at_end [OF suf(3)] by blast
  from one two show ?thesis by (rule conjI)
qed

text \<open>
  Claim C4. For every list of lines and every key: when no line starts with
  \<open><!-- key: \<close>, \<open>extractMeta\<close> returns the empty string; otherwise the first such line
  decides, and the value is what follows the prefix, without the closing \<open> -->\<close> when the
  line ends with it, trimmed of white space on both sides: what is cut from a string \<open>v\<close>
  at either side is white space, and what is left neither starts nor ends with a
  white-space character. A post whose file has no title line loads with its slug as
  title.
\<close>

theorem extractMeta_first_match_and_title_default:
  "((\<forall>l \<in> set lines. \<not> startsWith l (''<!-- '' @ key @ '': '')) \<longrightarrow> extractMeta lines key = [])
   \<and> ((\<forall>l \<in> set before. \<not> startsWith l (''<!-- '' @ key @ '': '')) \<longrightarrow>
        extractMeta (before @ ((''<!-- '' @ key @ '': '') @ rest) # after) key
        = trimSpace (withoutClosing rest))
   \<and> (\<exists>pre suf. v = pre @ trimSpace v @ suf \<and> whiteSpace pre \<and> whiteSpace suf)
   \<and> (\<forall>e \<in> spaceEncodings. \<not> startsWith (trimSpace v) e \<and> \<not> endsWith (trimSpace v) e)
   \<and> (readFile env (filepath_Join [''posts'', slug @ ''.html'']) = Inr content
        \<and> (\<forall>l \<in> set (split_nl content). \<not> startsWith l ''<!-- title: '') \<longrightarrow>
        (\<exists>post. loadPost env slug = Inr post \<and> Post.Title post = slug))"
proof (intro conjI impI)
  assume "\<forall>l \<in> set lines. \<not> startsWith l (''<!-- '' @ key @ '': '')"
  then show "extractMeta lines key = []" by (rule extractMeta_none)
next
  assume "\<forall>l \<in> set before. \<not> startsWith l (''<!-- '' @ key @ '': '')"
  then show "extractMeta (before @ ((''<!-- '' @ key @ '': '') @ rest) # after) key
             = trimSpace (withoutClosing rest)"
    by (rule extractMeta_first)
next
  show "\<exists>pre suf. v = pre @ trimSpace v @ suf \<and> whiteSpace pre \<and> whiteSpace suf"
    using trimSpace_spec [of v] by (rule conjunct1)
next
  show "\<forall>e \<in> spaceEncodings. \<not> startsWith (trimSpace v) e \<and> \<not> endsWith (trimSpace v) e"
    using trimSpace_spec [of v] by (rule conjunct2)
next
  assume a: "readFile env (filepath_Join [''posts'', slug @ ''.html'']) = Inr content
             \<and> (\<forall>l \<in> set (split_nl content). \<not> startsWith l ''<!-- title: '')"
  then have "extractMeta (split_nl content) ''title'' = []"
    using extractMeta_none [of "split_nl content" "''title''"] by simp
  with a show "\<exists>post. loadPost env slug = Inr post \<and> Post.Title post = slug"
    using loadPost_title_default by blast
qed

theorem extractMeta_first_match_and_title_default_witness:
  "extractMeta [''no metadata here''] ''title'' = []
   \<and> extractMeta [''<p>x</p>'', ''<!-- title: Foo -->'', ''<!-- title: Bar -->''] ''title'' = ''Foo''
   \<and> extractMeta [''<!-- title: '' @ [CHR 0x20, CHR 0x09] @ ''Foo Bar''
                     @ [CHR 0x0D, CHR 0xC2, CHR 0xA0, CHR 0xE2, CHR 0x80, CHR 0x83] @ '' -->'']
        ''title'' = ''Foo Bar''
   \<and> \<not> startsWith (trimSpace ([CHR 0x20, CHR 0x09] @ ''Foo Bar'')) [CHR 0x20]
   \<and> (\<exists>post. loadPost demoEnv ''omega'' = Inr post \<and> Post.Title post = ''omega'')"
proof -
  note claim = extractMeta_first_match_and_title_default
  have "\<forall>l \<in> set [''no metadata here'']. \<not> startsWith l (''<!-- '' @ ''title'' @ '': '')"
    by (simp add: startsWith_hasPrefix)
  then have one: "extractMeta [''no metadata here''] ''title'' = []"
    using claim [of "[''no metadata here'']" "''title''"] by blast
  have "\<forall>l \<in> set [''<p>x</p>'']. \<not> startsWith l (''<!-- '' @ ''title'' @ '': '')"
    by (simp add: startsWith_hasPrefix)
  then have "extractMeta ([''<p>x</p>''] @ ((''<!-- '' @ ''title'' @ '': '') @ ''Foo -->'')
                            # [''<!-- title: Bar -->'']) ''title''
             = trimSpace (withoutClosing ''Foo -->'')"
    using claim [of _ "''title''" "[''<p>x</p>'']" "''Foo -->''" "[''<!-- title: Bar -->'']"]
    by blast
  moreover have "trimSpace (withoutClosing ''Foo -->'') = ''Foo''"
    unfolding withoutClosing_eq by code_simp
  ultimately have two:
    "extractMeta [''<p>x</p>'', ''<!-- title: Foo -->'', ''<!-- title: Bar -->''] ''title'' = ''Foo''"
    by simp
  have "extractMeta ([] @ ((''<!-- '' @ ''title'' @ '': '')
          @ ([CHR 0x20, CHR 0x09] @ ''Foo Bar''
             @ [CHR 0x0D, CHR 0xC2, CHR 0xA0, CHR 0xE2, CHR 0x80, CHR 0x83] @ '' -->'')) # []) ''title''
        = trimSpace (withoutClosing ([CHR 0x20, CHR 0x09] @ ''Foo Bar''
             @ [CHR 0x0D, CHR 0xC2, CHR 0xA0, CHR 0xE2, CHR 0x80, CHR 0x83] @ '' -->''))"
    using claim [of _ "''title''" "[]" _ "[]"] by simp
  moreover have "trimSpace (withoutClosing ([CHR 0x20, CHR 0x09] @ ''Foo Bar''
             @ [CHR 0x0D, CHR 0xC2, CHR 0xA0, CHR 0xE2, CHR 0x80, CHR 0x83] @ '' -->'')) = ''Foo Bar''"
    unfolding withoutClosing_eq by code_simp
  ultimately have three:
    "extractMeta [''<!-- title: '' @ [CHR 0x20, CHR 0x09] @ ''Foo Bar''
                     @ [CHR 0x0D, CHR 0xC2, CHR 0xA0, CHR 0xE2, CHR 0x80, CHR 0x83] @ '' -->'']
        ''title'' = ''Foo Bar''"
    by simp
  have "[CHR 0x20] \<in> spaceEncodings" by (simp add: spaceEncodings_def)
  then have four: "\<not> startsWith (trimSpace ([CHR 0x20, CHR 0x09] @ ''Foo Bar'')) [CHR 0x20]"
    using claim [of _ _ _ _ _ "[CHR 0x20, CHR 0x09] @ ''Foo Bar''"] by blast
  have omega: "readFile demoEnv (filepath_Join [''posts'', ''omega'' @ ''.html''])
              = Inr (''<!-- date: unknown -->'' @ [nl] @ ''<!-- collection: ghost -->'' @ [nl] @ ''text'')"
    by code_simp
  have lines: "split_nl (''<!-- date: unknown -->'' @ [nl] @ ''<!-- collection: ghost -->'' @ [nl] @ ''text'')
               = [''<!-- date: unknown -->'', ''<!-- collection: ghost -->'', ''text'']"
    by code_simp
  have "\<forall>l \<in> set (split_nl (''<!-- date: unknown -->'' @ [nl] @ ''<!-- collection: ghost -->''
                               @ [nl] @ ''text'')). \<not> startsWith l ''<!-- title: ''"
    unfolding lines by (simp add: startsWith_hasPrefix)
  with omega have five: "\<exists>post. loadPost demoEnv ''omega'' = Inr post \<and> Post.Title post = ''omega''"
    using claim [of _ _ _ _ _ _ demoEnv "''omega''"] by blast
  from one two three four five show ?thesis by (intro conjI)
qed

section \<open>Heading indexer\<close>

lemma findClose_split:
  "findClose closing s = Some (inner, rest) \<Longrightarrow> s = inner @ closing @ rest \<and> nl \<notin> set inner"
proof (induction s arbitrary: inner rest)
  case Nil
  then show ?case by (auto simp: hasPrefix_iff split: if_splits)
next
  case (Cons c cs)
  show ?case
  proof (cases "hasPrefix (c # cs) closing")
    case True
    then obtain r where r: "c # cs = closing @ r" by (auto simp: hasPrefix_iff)
    from True Cons.prems have "inner = []" "rest = drop (length closing) (c # cs)" by auto
    with r show ?thesis by simp
  next
    case False
    with Cons.prems obtain inner' where "c \<noteq> nl" "findClose closing cs = Some (inner', rest)"
      "inner = c # inner'"
      by (auto split: if_splits option.splits)
    with Cons.IH [of inner' rest] show ?thesis by simp
  qed
qed

lemma replaceHeadings_toc:
  "snd (replaceHeadings lower tag level toc s)
   = toc @ map (\<lambda>m. tocEntry lower level (snd m)) (headingMatches tag pos s)"
proof (induction lower tag level toc s arbitrary: pos rule: replaceHeadings.induct)
  case (1 lower tag level toc)
  show ?case by simp
next
  case (2 lower tag level toc c cs)
  show ?case
  proof (cases "hasPrefix (c # cs) (openTag tag)")
    case False
    then show ?thesis
      using "2.IH"(3) [OF False, of "pos + 1"] by (simp add: split_beta)
  next
    case True
    show ?thesis
    proof (cases "findClose (closeTag tag) (drop (length (openTag tag)) (c # cs))")
      case None
      then show ?thesis
        using True "2.IH"(1) [OF True None, of "pos + 1"] by (simp add: split_beta)
    next
      case (Some found)
      obtain inner rest where found: "found = (inner, rest)" by (cases found)
      show ?thesis
        using True Some found
          "2.IH"(2) [OF True Some found [symmetric] refl,
            of "pos + length (openTag tag) + length inner + length (closeTag tag)"]
        by (simp add: split_beta tocEntry_def Let_def)
    qed
  qed
qed

lemma headingMatches_from: "\<forall>m \<in> set (headingMatches tag pos s). pos \<le> fst m"
proof (induction tag pos s rule: headingMatches.induct)
  case (1 tag pos)
  show ?case by simp
next
  case (2 tag pos c cs)
  then show ?case
    by (fastforce split: if_splits option.splits prod.splits)
qed

lemma headingMatches_increasing: "sorted_wrt (<) (map fst (headingMatches tag pos s))"
proof (induction tag pos s rule: headingMatches.induct)
  case (1 tag pos)
  show ?case by simp
next
  case (2 tag pos c cs)
  show ?case
  proof (cases "hasPrefix (c # cs) (openTag tag)")
    case False
    then show ?thesis using "2.IH"(3) by simp
  next
    case True
    show ?thesis
    proof (cases "findClose (closeTag tag) (drop (length (openTag tag)) (c # cs))")
      case None
      then show ?thesis using True "2.IH"(1) by simp
    next
      case (Some found)
      obtain inner rest where found: "found = (inner, rest)" by (cases found)
      have "\<forall>m \<in> set (headingMatches tag
               (pos + length (openTag tag) + length inner + length (closeTag tag)) rest).
              pos < fst m"
        using headingMatches_from
          [of tag "pos + length (openTag tag) + length inner + length (closeTag tag)" rest]
        by (auto simp: openTag_def)
      then show ?thesis
        using True Some found "2.IH"(2) [OF True Some found [symmetric]]
        by auto
    qed
  qed
qed

lemma headingMatches_occur:
  "\<forall>m \<in> set (headingMatches tag pos s).
     pos \<le> fst m \<and> hasPrefix (drop (fst m - pos) s) (openTag tag @ snd m @ closeTag tag)
     \<and> nl \<notin> set (snd m)"
proof (induction tag pos s rule: headingMatches.induct)
  case (1 tag pos)
  show ?case by simp
next
  case (2 tag pos c cs)
  have skip: "\<forall>m \<in> set (headingMatches tag (pos + 1) cs).
                pos \<le> fst m
                \<and> hasPrefix (drop (fst m - pos) (c # cs)) (openTag tag @ snd m @ closeTag tag)
                \<and> nl \<notin> set (snd m)"
    if ih: "\<forall>m \<in> set (headingMatches tag (pos + 1) cs).
              pos + 1 \<le> fst m
              \<and> hasPrefix (drop (fst m - (pos + 1)) cs) (openTag tag @ snd m @ closeTag tag)
              \<and> nl \<notin> set (snd m)"
  proof
    fix m assume "m \<in> set (headingMatches tag (pos + 1) cs)"
    with ih have m: "pos + 1 \<le> fst m"
      "hasPrefix (drop (fst m - (pos + 1)) cs) (openTag tag @ snd m @ closeTag tag)"
      "nl \<notin> set (snd m)"
      by auto
    from m(1) have "fst m - pos = Suc (fst m - (pos + 1))" by simp
    then have "drop (fst m - pos) (c # cs) = drop (fst m - (pos + 1)) cs" by simp
    with m show "pos \<le> fst m
                \<and> hasPrefix (drop (fst m - pos) (c # cs)) (openTag tag @ snd m @ closeTag tag)
                \<and> nl \<notin> set (snd m)"
      by simp
  qed
  show ?case
  proof (cases "hasPrefix (c # cs) (openTag tag)")
    case False
    then show ?thesis
      using skip [OF "2.IH"(3) [OF False]] by simp
  next
    case True
    show ?thesis
    proof (cases "findClose (closeTag tag) (drop (length (openTag tag)) (c # cs))")
      case None
      then show ?thesis
        using True skip [OF "2.IH"(1) [OF True None]] by simp
    next
      case (Some found)
      obtain inner rest where found: "found = (inner, rest)" by (cases found)
      from True obtain r where r: "c # cs = openTag tag @ r" by (auto simp: hasPrefix_iff)
      with Some found have "findClose (closeTag tag) r = Some (inner, rest)" by simp
      from findClose_split [OF this] have split: "r = inner @ closeTag tag @ rest"
        and clean: "nl \<notin> set inner" by simp_all
      define n where "n = length (openTag tag) + length inner + length (closeTag tag)"
      have whole: "c # cs = (openTag tag @ inner @ closeTag tag) @ rest"
        using r split by simp
      have here: "hasPrefix (c # cs) (openTag tag @ inner @ closeTag tag)"
        unfolding hasPrefix_iff using whole by blast
      have later: "drop (k + n) (c # cs) = drop k rest" for k
        unfolding whole n_def by (simp add: add.commute)
      have pos_n: "pos + length (openTag tag) + length inner + length (closeTag tag) = pos + n"
        by (simp add: n_def)
      have tail: "\<forall>m \<in> set (headingMatches tag (pos + n) rest).
              pos \<le> fst m
              \<and> hasPrefix (drop (fst m - pos) (c # cs)) (openTag tag @ snd m @ closeTag tag)
              \<and> nl \<notin> set (snd m)"
      proof
        fix m assume m: "m \<in> set (headingMatches tag (pos + n) rest)"
        from "2.IH"(2) [OF True Some found [symmetric]] m
        have ih: "pos + n \<le> fst m"
          "hasPrefix (drop (fst m - (pos + n)) rest) (openTag tag @ snd m @ closeTag tag)"
          "nl \<notin> set (snd m)"
          unfolding pos_n by auto
        have "fst m - pos = (fst m - (pos + n)) + n" using ih(1) by simp
        then have "drop (fst m - pos) (c # cs) = drop (fst m - (pos + n)) rest"
          using later by simp
        with ih show "pos \<le> fst m
              \<and> hasPrefix (drop (fst m - pos) (c # cs)) (openTag tag @ snd m @ closeTag tag)
              \<and> nl \<notin> set (snd m)"
          by simp
      qed
      have "headingMatches tag pos (c # cs) = (pos, inner) # headingMatches tag (pos + n) rest"
        using True Some found by (simp add: n_def add.assoc)
      then show ?thesis
        using here clean tail by simp
    qed
  qed
qed

lemma headingMatches_at:
  "\<forall>m \<in> set (headingMatches tag 0 s). hasPrefix (drop (fst m) s) (openTag tag @ snd m @ closeTag tag)"
  using headingMatches_occur [of tag 0 s] by simp

text \<open>
  Claim C5. The outline that \<open>processContentWithTOC\<close> returns lists the entries of all
  matches of the level-2 pattern in the body, then the entries of all matches of the
  level-3 pattern in the body as the first pass left it; so every level-2 entry comes
  before every level-3 entry. Within each group the entries follow the matches from
  left to right: the offsets of the matches increase, and each offset is a place where
  the heading stands in the text. The witness is a level-3 heading followed by a
  level-2 heading: the outline has the level-2 entry first.
\<close>

theorem processContentWithTOC_pass_order:
  "snd (processContentWithTOC lower body)
     = map (\<lambda>m. tocEntry lower 2 (snd m)) (headingMatches ''h2'' 0 body)
       @ map (\<lambda>m. tocEntry lower 3 (snd m))
           (headingMatches ''h3'' 0 (fst (replaceHeadings lower ''h2'' 2 [] body)))
   \<and> map Level (snd (processContentWithTOC lower body))
     = replicate (length (headingMatches ''h2'' 0 body)) 2
       @ replicate (length (headingMatches ''h3'' 0 (fst (replaceHeadings lower ''h2'' 2 [] body)))) 3
   \<and> sorted_wrt (<) (map fst (headingMatches ''h2'' 0 body))
   \<and> sorted_wrt (<) (map fst (headingMatches ''h3'' 0 (fst (replaceHeadings lower ''h2'' 2 [] body))))
   \<and> (\<forall>m \<in> set (headingMatches ''h2'' 0 body).
         hasPrefix (drop (fst m) body) (''<h2>'' @ snd m @ ''</h2>''))
   \<and> (\<forall>m \<in> set (headingMatches ''h3'' 0 (fst (replaceHeadings lower ''h2'' 2 [] body))).
         hasPrefix (drop (fst m) (fst (replaceHeadings lower ''h2'' 2 [] body)))
           (''<h3>'' @ snd m @ ''</h3>''))"
proof -
  define body2 where "body2 = fst (replaceHeadings lower ''h2'' 2 [] body)"
  have toc2: "snd (replaceHeadings lower ''h2'' 2 [] body)
              = map (\<lambda>m. tocEntry lower 2 (snd m)) (headingMatches ''h2'' 0 body)"
    using replaceHeadings_toc [of lower "''h2''" 2 "[]" body 0] by simp
  have outline: "snd (processContentWithTOC lower body)
     = map (\<lambda>m. tocEntry lower 2 (snd m)) (headingMatches ''h2'' 0 body)
       @ map (\<lambda>m. tocEntry lower 3 (snd m)) (headingMatches ''h3'' 0 body2)"
    using replaceHeadings_toc [of lower "''h3''" 3 "snd (replaceHeadings lower ''h2'' 2 [] body)" body2 0]
    by (simp add: processContentWithTOC_def split_beta toc2 body2_def)
  have levels: "map Level (snd (processContentWithTOC lower body))
     = replicate (length (headingMatches ''h2'' 0 body)) 2
       @ replicate (length (headingMatches ''h3'' 0 body2)) 3"
    unfolding outline by (simp add: tocEntry_def comp_def map_replicate_const)
  have at2: "\<forall>m \<in> set (headingMatches ''h2'' 0 body).
         hasPrefix (drop (fst m) body) (''<h2>'' @ snd m @ ''</h2>'')"
    using headingMatches_at [of "''h2''" body] by (simp add: openTag_def closeTag_def)
  have at3: "\<forall>m \<in> set (headingMatches ''h3'' 0 body2).
         hasPrefix (drop (fst m) body2) (''<h3>'' @ snd m @ ''</h3>'')"
    using headingMatches_at [of "''h3''" body2] by (simp add: openTag_def closeTag_def)
  have inc2: "sorted_wrt (<) (map fst (headingMatches ''h2'' 0 body))"
    by (rule headingMatches_increasing)
  have inc3: "sorted_wrt (<) (map fst (headingMatches ''h3'' 0 body2))"
    by (rule headingMatches_increasing)
  from outline levels inc2 inc3 at2 at3 show ?thesis
    unfolding body2_def [symmetric] by (intro conjI)
qed

lemma demo_headings:
  "headingMatches ''h2'' 0 (''<h3>Later</h3>'' @ [nl] @ ''<h2>First Part</h2>'')
     = [(15, ''First Part'')]
   \<and> headingMatches ''h3'' 0
        (fst (replaceHeadings asciiToLower ''h2'' 2 [] (''<h3>Later</h3>'' @ [nl] @ ''<h2>First Part</h2>'')))
     = [(0, ''Later'')]"
  by code_simp

theorem processContentWithTOC_pass_order_witness:
  "headingMatches ''h3'' 0 (''<h3>Later</h3>'' @ [nl] @ ''<h2>First Part</h2>'') = [(0, ''Later'')]
   \<and> headingMatches ''h2'' 0 (''<h3>Later</h3>'' @ [nl] @ ''<h2>First Part</h2>'') = [(15, ''First Part'')]
   \<and> snd (processContentWithTOC asciiToLower (''<h3>Later</h3>'' @ [nl] @ ''<h2>First Part</h2>''))
     = [\<lparr>ID = ''first-part'', Text = ''First Part'', Level = 2\<rparr>,
        \<lparr>ID = ''later'', Text = ''Later'', Level = 3\<rparr>]"
proof -
  have h3: "headingMatches ''h3'' 0 (''<h3>Later</h3>'' @ [nl] @ ''<h2>First Part</h2>'') = [(0, ''Later'')]"
    by code_simp
  have ids: "tocEntry asciiToLower 2 ''First Part'' = \<lparr>ID = ''first-part'', Text = ''First Part'', Level = 2\<rparr>"
    "tocEntry asciiToLower 3 ''Later'' = \<lparr>ID = ''later'', Text = ''Later'', Level = 3\<rparr>"
    by code_simp+
  note second = demo_headings [THEN conjunct1] and third = demo_headings [THEN conjunct2]
  have "snd (processContentWithTOC asciiToLower (''<h3>Later</h3>'' @ [nl] @ ''<h2>First Part</h2>''))
     = [\<lparr>ID = ''first-part'', Text = ''First Part'', Level = 2\<rparr>,
        \<lparr>ID = ''later'', Text = ''Later'', Level = 3\<rparr>]"
    unfolding processContentWithTOC_pass_order
                [of asciiToLower "''<h3>Later</h3>'' @ [nl] @ ''<h2>First Part</h2>''",
                 THEN conjunct1]
              second third
    by (simp only: list.map snd_conv append.simps ids)
  with h3 second show ?thesis by (intro conjI)
qed

section \<open>Reading time\<close>






section \<open>Collections\<close>

lemma demo_series_file:
  "readFile demoEnv (filepath_Join [''collections'', ''series'' @ ''.html''])
   = Inr (''<!-- title: The Series -->'' @ [nl] @ ''<p>About</p>'')"
  by code_simp

lemma demo_loadPosts:
  "(case loadPosts demoEnv of
      Inr posts \<Rightarrow> map (\<lambda>p. (Post.Slug p, RawDate p, Collection p)) posts
    | Inl err \<Rightarrow> [])
   = [(''omega'', ''unknown'', ''ghost''), (''gamma'', ''2024-03-01'', ''series''),
      (''beta'', ''2024-02-01'', ''series''), (''alpha'', ''2024-01-01'', ''series'')]"
  by code_simp

lemma memberLoop_filter:
  "memberLoop slug members posts = members @ filter (\<lambda>p. Collection p = slug) posts"
  by (induction posts arbitrary: members) simp_all

text \<open>
  Claim C7. When the collection file is read and the posts load, \<open>loadCollection\<close>
  returns a collection whose members are exactly the posts of \<open>loadPosts\<close> with that
  collection slug, in the order of \<open>loadPosts\<close>.
\<close>

theorem loadCollection_members:
  assumes "readFile env (filepath_Join [''collections'', slug @ ''.html'']) = Inr content"
    and "loadPosts env = Inr posts"
  shows "\<exists>c. loadCollection env slug = Inr c
             \<and> Posts c = filter (\<lambda>p. Collection p = slug) posts"
  using assms by (simp add: loadCollection_def Let_def memberLoop_filter)

theorem loadCollection_members_witness:
  "\<exists>c posts. loadPosts demoEnv = Inr posts \<and> loadCollection demoEnv ''series'' = Inr c
      \<and> Posts c = filter (\<lambda>p. Collection p = ''series'') posts
      \<and> map Post.Slug posts = [''omega'', ''gamma'', ''beta'', ''alpha'']
      \<and> map Post.Slug (Posts c) = [''gamma'', ''beta'', ''alpha'']"
proof -
  obtain posts where posts: "loadPosts demoEnv = Inr posts"
    and summary: "map (\<lambda>p. (Post.Slug p, RawDate p, Collection p)) posts
       = [(''omega'', ''unknown'', ''ghost''), (''gamma'', ''2024-03-01'', ''series''),
          (''beta'', ''2024-02-01'', ''series''), (''alpha'', ''2024-01-01'', ''series'')]"
    using demo_loadPosts by (cases "loadPosts demoEnv") auto
  obtain c where c: "loadCollection demoEnv ''series'' = Inr c"
    "Posts c = filter (\<lambda>p. Collection p = ''series'') posts"
    using loadCollection_members [OF demo_series_file posts] by blast
  from summary obtain p1 p2 p3 p4 where ps: "posts = [p1, p2, p3, p4]"
    "Post.Slug p1 = ''omega''" "Collection p1 = ''ghost''"
    "Post.Slug p2 = ''gamma''" "Collection p2 = ''series''"
    "Post.Slug p3 = ''beta''" "Collection p3 = ''series''"
    "Post.Slug p4 = ''alpha''" "Collection p4 = ''series''"
    by auto
  then have "map Post.Slug posts = [''omega'', ''gamma'', ''beta'', ''alpha'']"
    "map Post.Slug (filter (\<lambda>p. Collection p = ''series'') posts) = [''gamma'', ''beta'', ''alpha'']"
    by simp_all
  with posts c show ?thesis by auto
qed

text \<open>
  Claim C8. A post whose collection line names a collection whose file cannot be read
  still loads: no error, empty collection title and description, and the collection
  slug kept.
\<close>

theorem loadPost_missing_collection_file:
  assumes "readFile env (filepath_Join [''posts'', slug @ ''.html'']) = Inr content"
    and "extractMeta (split_nl content) ''collection'' = collectionSlug"
    and "collectionSlug \<noteq> []"
    and "readFile env (filepath_Join [''collections'', collectionSlug @ ''.html'']) = Inl err"
  shows "\<exists>post. loadPost env slug = Inr post
                \<and> CollectionTitle post = [] \<and> CollectionDescription post = []
                \<and> Collection post = collectionSlug"
  using assms by (simp add: loadPost_def Let_def split: prod.splits)

theorem loadPost_missing_collection_file_witness:
  "\<exists>post. loadPost demoEnv ''omega'' = Inr post
      \<and> CollectionTitle post = [] \<and> CollectionDescription post = []
      \<and> Collection post = ''ghost''"
proof -
  have omega: "readFile demoEnv (filepath_Join [''posts'', ''omega'' @ ''.html''])
              = Inr (''<!-- date: unknown -->'' @ [nl] @ ''<!-- collection: ghost -->'' @ [nl] @ ''text'')"
    by code_simp
  have coll: "extractMeta (split_nl (''<!-- date: unknown -->'' @ [nl]
                @ ''<!-- collection: ghost -->'' @ [nl] @ ''text'')) ''collection'' = ''ghost''"
    by code_simp
  have nonempty: "''ghost'' \<noteq> []" by simp
  have missing: "readFile demoEnv (filepath_Join [''collections'', ''ghost'' @ ''.html''])
                 = Inl (PathError ''collections/ghost.html'')"
    by code_simp
  show ?thesis
    using loadPost_missing_collection_file [OF omega coll nonempty missing] .
qed

section \<open>Collection ranker\<close>

lemma collectionWalk_members:
  "collectionWalk env collectionSlug acc es
   = acc @ map (memberInfo env) (filter (inCollection env collectionSlug) es)"
proof (induction es arbitrary: acc)
  case Nil
  show ?case by simp
next
  case (Cons e es)
  show ?case
    by (cases "readFile env (wPath e)")
       (simp_all add: Cons.IH inCollection_def memberInfo_def endsWith_def hasSuffix_iff Let_def)
qed

lemma findIndex_absent:
  "currentSlug \<notin> infoSlug ` set ps \<Longrightarrow> findIndex currentSlug i ps = 0"
  by (induction ps arbitrary: i) auto

lemma findIndex_present:
  "currentSlug \<in> infoSlug ` set ps \<Longrightarrow>
     int i + 1 \<le> findIndex currentSlug i ps
     \<and> findIndex currentSlug i ps \<le> int i + int (length ps)
     \<and> infoSlug (ps ! nat (findIndex currentSlug i ps - int i - 1)) = currentSlug
     \<and> (\<forall>k < nat (findIndex currentSlug i ps - int i - 1). infoSlug (ps ! k) \<noteq> currentSlug)"
proof (induction ps arbitrary: i)
  case Nil
  then show ?case by simp
next
  case (Cons p ps)
  show ?case
  proof (cases "infoSlug p = currentSlug")
    case True
    then show ?thesis by simp
  next
    case False
    with Cons.prems have mem: "currentSlug \<in> infoSlug ` set ps" by auto
    note ih = Cons.IH [OF mem, of "Suc i"]
    define r where "r = findIndex currentSlug (Suc i) ps"
    from ih have r: "int i + 2 \<le> r" "r \<le> int i + 1 + int (length ps)"
      "infoSlug (ps ! nat (r - int i - 2)) = currentSlug"
      "\<forall>k < nat (r - int i - 2). infoSlug (ps ! k) \<noteq> currentSlug"
      by (simp_all add: r_def algebra_simps)
    have eq: "findIndex currentSlug i (p # ps) = r"
      using False by (simp add: r_def)
    have idx: "nat (r - int i - 1) = Suc (nat (r - int i - 2))"
      using r(1) by linarith
    have "\<forall>k < nat (r - int i - 1). infoSlug ((p # ps) ! k) \<noteq> currentSlug"
    proof (intro allI impI)
      fix k assume "k < nat (r - int i - 1)"
      then show "infoSlug ((p # ps) ! k) \<noteq> currentSlug"
        using False r(4) idx by (cases k) auto
    qed
    then show ?thesis
      unfolding eq using r idx by auto
  qed
qed

lemma demo_series_members:
  "collectionWalk demoEnv ''series'' [] (walkDir demoEnv ''posts'')
   = [\<lparr>infoSlug = ''alpha'', infoDate = ''2024-01-01''\<rparr>,
      \<lparr>infoSlug = ''beta'', infoDate = ''2024-02-01''\<rparr>,
      \<lparr>infoSlug = ''gamma'', infoDate = ''2024-03-01''\<rparr>]"
  by code_simp

lemma demo_series_ranked:
  "sort_Slice (\<lambda>a b. infoDate a < infoDate b)
     [\<lparr>infoSlug = ''alpha'', infoDate = ''2024-01-01''\<rparr>,
      \<lparr>infoSlug = ''beta'', infoDate = ''2024-02-01''\<rparr>,
      \<lparr>infoSlug = ''gamma'', infoDate = ''2024-03-01''\<rparr>]
   = [\<lparr>infoSlug = ''alpha'', infoDate = ''2024-01-01''\<rparr>,
      \<lparr>infoSlug = ''beta'', infoDate = ''2024-02-01''\<rparr>,
      \<lparr>infoSlug = ''gamma'', infoDate = ''2024-03-01''\<rparr>]"
  by code_simp


text \<open>
  Claim C10. \<open>getCollectionPosition\<close> returns the same pair for every value of its date
  argument: the ranking uses the dates read from the files only.
\<close>

theorem getCollectionPosition_ignores_date:
  "getCollectionPosition env currentSlug collectionSlug date1
   = getCollectionPosition env currentSlug collectionSlug date2"
  by (simp add: getCollectionPosition_def)

section \<open>Repository scanner\<close>








section \<open>Feed items\<close>

lemma digitChar_digit: "k < 10 \<Longrightarrow> isDigit (digitChar k) \<and> digitVal (digitChar k) = k"
  by (simp add: isDigit_def digitChar_def digitVal_def less_eq_char_def)

lemma digit_digitChar: "isDigit c \<Longrightarrow> digitChar (digitVal c) = c \<and> digitVal c < 10"
proof -
  assume "isDigit c"
  then have range: "48 \<le> (of_char c :: nat)" "(of_char c :: nat) \<le> 57"
    by (simp_all add: isDigit_def less_eq_char_def)
  then have "48 + (of_char c - 48) = (of_char c :: nat)" by simp
  then have "digitChar (digitVal c) = char_of (of_char c :: nat)"
    by (simp add: digitChar_def digitVal_def)
  with range show ?thesis by (simp add: digitVal_def)
qed

lemma natDigits_1: "n < 10 \<Longrightarrow> natDigits n = [digitChar n]"
  by (subst natDigits.simps) simp

lemma natDigits_2: "10 \<le> n \<Longrightarrow> n < 100 \<Longrightarrow> natDigits n = [digitChar (n div 10), digitChar (n mod 10)]"
  by (subst natDigits.simps) (simp add: natDigits_1)

lemma natDigits_3:
  "100 \<le> n \<Longrightarrow> n < 1000 \<Longrightarrow>
   natDigits n = [digitChar (n div 100), digitChar (n div 10 mod 10), digitChar (n mod 10)]"
  by (subst natDigits.simps) (simp add: natDigits_2 div_mult2_eq [symmetric])

lemma natDigits_4:
  "1000 \<le> n \<Longrightarrow> n < 10000 \<Longrightarrow>
   natDigits n = [digitChar (n div 1000), digitChar (n div 100 mod 10),
                  digitChar (n div 10 mod 10), digitChar (n mod 10)]"
  by (subst natDigits.simps) (simp add: natDigits_3 div_mult2_eq [symmetric])

lemma digitChar_0: "digitChar 0 = CHR ''0''"
  by code_simp

lemma replicate_small:
  "replicate 1 x = [x]" "replicate 2 x = [x, x]" "replicate 3 x = [x, x, x]"
  by (simp_all add: numeral_2_eq_2 numeral_3_eq_3)

lemma appendInt_2:
  "n < 100 \<Longrightarrow> appendInt n 2 = [digitChar (n div 10), digitChar (n mod 10)]"
  by (cases "n < 10") (simp_all add: appendInt_def natDigits_1 natDigits_2 digitChar_0 replicate_small)

lemma appendInt_4:
  "n < 10000 \<Longrightarrow>
   appendInt n 4 = [digitChar (n div 1000), digitChar (n div 100 mod 10),
                    digitChar (n div 10 mod 10), digitChar (n mod 10)]"
proof -
  assume n: "n < 10000"
  consider "n < 10" | "10 \<le> n" "n < 100" | "100 \<le> n" "n < 1000" | "1000 \<le> n"
    by linarith
  then show ?thesis
  proof cases
    case 1
    then show ?thesis by (simp add: appendInt_def natDigits_1 digitChar_0 replicate_small)
  next
    case 2
    then show ?thesis
      by (simp add: appendInt_def natDigits_2 digitChar_0 replicate_small)
  next
    case 3
    then show ?thesis
      by (simp add: appendInt_def natDigits_3 digitChar_0 replicate_small)
  next
    case 4
    then show ?thesis using n by (simp add: appendInt_def natDigits_4)
  qed
qed
lemma daysIn_le_31: "1 \<le> m \<Longrightarrow> m \<le> 12 \<Longrightarrow> daysIn m y \<le> 31"
proof -
  assume "1 \<le> m" "m \<le> 12"
  then have "m = 1 \<or> m = 2 \<or> m = 3 \<or> m = 4 \<or> m = 5 \<or> m = 6 \<or> m = 7 \<or> m = 8 \<or> m = 9
             \<or> m = 10 \<or> m = 11 \<or> m = 12"
    by arith
  then show ?thesis
    by (elim disjE) (simp_all add: daysIn_def daysBefore_def)
qed

lemma getyear_Some:
  "getyear v = Some (y, r) \<Longrightarrow>
     \<exists>a b c d. v = a # b # c # d # r \<and> isDigit a \<and> isDigit b \<and> isDigit c \<and> isDigit d
       \<and> y = ((digitVal a * 10 + digitVal b) * 10 + digitVal c) * 10 + digitVal d"
  by (erule getyear.elims) (auto split: if_splits)

lemma getnum_Some:
  "getnum v = Some (n, r) \<Longrightarrow>
     \<exists>a b. v = a # b # r \<and> isDigit a \<and> isDigit b \<and> n = digitVal a * 10 + digitVal b"
  by (erule getnum.elims) (auto split: if_splits)

lemma skipHyphen_Some: "skipHyphen v = Some r \<Longrightarrow> v = CHR ''-'' # r"
  by (erule skipHyphen.elims) (auto split: if_splits)

lemma four_digits:
  assumes "a < 10" "b < 10" "c < 10" "d < (10::nat)"
  defines "y \<equiv> ((a * 10 + b) * 10 + c) * 10 + d"
  shows "y < 10000" "y div 1000 = a" "y div 100 mod 10 = b" "y div 10 mod 10 = c" "y mod 10 = d"
proof -
  define u where "u = a * 10 + b"
  define w where "w = u * 10 + c"
  have y: "y = w * 10 + d" by (simp add: y_def w_def u_def)
  have tens: "y div 10 = w" and units: "y mod 10 = d"
    using assms(4) by (simp_all add: y)
  have "y div 100 = y div 10 div 10"
    by (simp add: div_mult2_eq [symmetric])
  then have hundreds: "y div 100 = u"
    using assms(3) by (simp add: tens w_def)
  have "y div 1000 = y div 100 div 10"
    by (simp add: div_mult2_eq [symmetric])
  then have thousands: "y div 1000 = a"
    using assms(2) by (simp add: hundreds u_def)
  show "y < 10000" using assms(1-4) by (simp add: y_def)
  show "y div 1000 = a" by (rule thousands)
  show "y div 100 mod 10 = b" using assms(2) by (simp add: hundreds u_def)
  show "y div 10 mod 10 = c" using assms(3) by (simp add: tens w_def)
  show "y mod 10 = d" by (rule units)
qed

lemma two_digits:
  assumes "a < 10" "b < (10::nat)"
  defines "n \<equiv> a * 10 + b"
  shows "n < 100" "n div 10 = a" "n mod 10 = b"
  using assms(1-2) by (simp_all add: n_def)

lemma time_Parse_Some:
  assumes "time_Parse s = Some t"
  shows "validDate t \<and> s = isoDateString t"
proof -
  from assms obtain y v1 v2 m v3 v4 d where
    y: "getyear s = Some (y, v1)" and h1: "skipHyphen v1 = Some v2"
    and m: "getnum v2 = Some (m, v3)" and mr: "\<not> (m = 0 \<or> 12 < m)"
    and h2: "skipHyphen v3 = Some v4" and d: "getnum v4 = Some (d, [])"
    and dr: "\<not> (d < 1 \<or> daysIn m y < d)" and t: "t = \<lparr>year = y, month = m, day = d\<rparr>"
    by (auto simp: time_Parse_def split: option.splits prod.splits if_splits)
  from getyear_Some [OF y] obtain a b c e where
    s: "s = a # b # c # e # v1" and ds: "isDigit a" "isDigit b" "isDigit c" "isDigit e"
    and yv: "y = ((digitVal a * 10 + digitVal b) * 10 + digitVal c) * 10 + digitVal e"
    by blast
  from getnum_Some [OF m] obtain f g where
    v2: "v2 = f # g # v3" and dm: "isDigit f" "isDigit g" and mv: "m = digitVal f * 10 + digitVal g"
    by blast
  from getnum_Some [OF d] obtain h i where
    v4: "v4 = [h, i]" and dd: "isDigit h" "isDigit i" and dv: "d = digitVal h * 10 + digitVal i"
    by blast
  note v1 = skipHyphen_Some [OF h1] and v3 = skipHyphen_Some [OF h2]
  note ya = four_digits [OF digit_digitChar [OF ds(1), THEN conjunct2]
      digit_digitChar [OF ds(2), THEN conjunct2] digit_digitChar [OF ds(3), THEN conjunct2]
      digit_digitChar [OF ds(4), THEN conjunct2], folded yv]
  note ma = two_digits [OF digit_digitChar [OF dm(1), THEN conjunct2]
      digit_digitChar [OF dm(2), THEN conjunct2], folded mv]
  note da = two_digits [OF digit_digitChar [OF dd(1), THEN conjunct2]
      digit_digitChar [OF dd(2), THEN conjunct2], folded dv]
  have "appendInt y 4 = [a, b, c, e]"
    using ya ds by (simp add: appendInt_4 digit_digitChar)
  moreover have "appendInt m 2 = [f, g]"
    using ma dm by (simp add: appendInt_2 digit_digitChar)
  moreover have "appendInt d 2 = [h, i]"
    using da dd by (simp add: appendInt_2 digit_digitChar)
  ultimately have "s = isoDateString t"
    by (simp add: isoDateString_def t s v1 v2 v3 v4)
  moreover have "validDate t"
    using ya(1) mr dr by (simp add: validDate_def t)
  ultimately show ?thesis by simp
qed

lemma time_Parse_isoDateString:
  assumes "validDate t"
  shows "time_Parse (isoDateString t) = Some t"
proof -
  from assms have y: "year t < 10000" and m: "1 \<le> month t" "month t \<le> 12"
    and d: "1 \<le> day t" "day t \<le> daysIn (month t) (year t)"
    by (simp_all add: validDate_def)
  from d(2) daysIn_le_31 [OF m, of "year t"] have d100: "day t < 100" by simp
  from m have m100: "month t < 100" by simp
  have yd: "year t div 1000 < 10" "year t div 100 mod 10 < 10" "year t div 10 mod 10 < 10"
    "year t mod 10 < 10"
    using y by simp_all
  have md: "month t div 10 < 10" "month t mod 10 < 10" using m100 by simp_all
  have dd: "day t div 10 < 10" "day t mod 10 < 10" using d100 by simp_all
  have ysum: "((year t div 1000 * 10 + year t div 100 mod 10) * 10 + year t div 10 mod 10) * 10
              + year t mod 10 = year t"
  proof -
    have "year t div 1000 = year t div 100 div 10" "year t div 100 = year t div 10 div 10"
      by (simp_all add: div_mult2_eq [symmetric])
    then have "year t div 1000 * 10 + year t div 100 mod 10 = year t div 100"
      "year t div 100 * 10 + year t div 10 mod 10 = year t div 10"
      by simp_all
    then show ?thesis by simp
  qed
  have msum: "month t div 10 * 10 + month t mod 10 = month t" by simp
  have dsum: "day t div 10 * 10 + day t mod 10 = day t" by simp
  have "getyear (isoDateString t)
        = Some (year t, ''-'' @ appendInt (month t) 2 @ ''-'' @ appendInt (day t) 2)"
    using yd ysum by (simp add: isoDateString_def appendInt_4 [OF y] digitChar_digit)
  moreover have "getnum (appendInt (month t) 2 @ ''-'' @ appendInt (day t) 2)
        = Some (month t, ''-'' @ appendInt (day t) 2)"
    using md msum by (simp add: appendInt_2 [OF m100] digitChar_digit)
  moreover have "getnum (appendInt (day t) 2) = Some (day t, [])"
    using dd dsum by (simp add: appendInt_2 [OF d100] digitChar_digit)
  ultimately show ?thesis
    using m d by (simp add: time_Parse_def)
qed

lemma feedItems_map: "feedItems baseURL items posts = items @ map (feedItem baseURL) posts"
  by (induction posts arbitrary: items) simp_all

lemma month_cases:
  "1 \<le> m \<Longrightarrow> m \<le> 12 \<Longrightarrow>
     m = 1 \<or> m = 2 \<or> m = 3 \<or> m = 4 \<or> m = 5 \<or> m = 6 \<or> m = 7 \<or> m = 8 \<or> m = 9
     \<or> m = 10 \<or> m = 11 \<or> m = (12::nat)"
  by arith

lemma decimal_digitChar: "k < 10 \<Longrightarrow> digitChar k = decimal k"
proof -
  have "list_all (\<lambda>k. digitChar k = decimal k) [0..<10]" by code_simp
  then have "\<forall>k \<in> set [0..<10]. digitChar k = decimal k" by (simp only: list_all_iff)
  moreover assume "k < 10"
  ultimately show ?thesis by simp
qed

lemma daysIn_monthLength: "1 \<le> m \<Longrightarrow> m \<le> 12 \<Longrightarrow> daysIn m y = monthLength m y"
proof -
  assume "1 \<le> m" "m \<le> 12"
  then have "m = 1 \<or> m = 2 \<or> m = 3 \<or> m = 4 \<or> m = 5 \<or> m = 6 \<or> m = 7 \<or> m = 8 \<or> m = 9
             \<or> m = 10 \<or> m = 11 \<or> m = 12"
    by (rule month_cases)
  then show ?thesis
    by (elim disjE)
       (simp_all add: daysIn_def daysBefore_def monthLength_def isLeap_def leapYear_def
          dvd_eq_mod_eq_0)
qed

lemma weekday_less: "weekday t < 7"
  by (simp add: weekday_def nat_less_iff)

lemma shortDayNames_dayAbbrev: "w < 7 \<Longrightarrow> shortDayNames ! w = dayAbbrev w"
proof -
  assume "w < 7"
  then have "w = 0 \<or> w = 1 \<or> w = 2 \<or> w = 3 \<or> w = 4 \<or> w = 5 \<or> w = 6" by arith
  then show ?thesis
    by (elim disjE) (simp_all add: shortDayNames_def dayAbbrev_def)
qed

lemma shortMonthNames_monthAbbrev:
  "1 \<le> m \<Longrightarrow> m \<le> 12 \<Longrightarrow> shortMonthNames ! (m - 1) = monthAbbrev m"
proof -
  assume "1 \<le> m" "m \<le> 12"
  then have "m = 1 \<or> m = 2 \<or> m = 3 \<or> m = 4 \<or> m = 5 \<or> m = 6 \<or> m = 7 \<or> m = 8 \<or> m = 9
             \<or> m = 10 \<or> m = 11 \<or> m = 12"
    by (rule month_cases)
  then show ?thesis
    by (elim disjE) (simp_all add: shortMonthNames_def monthAbbrev_def)
qed

lemma formatRFC1123Z_text:
  assumes "validDate t"
  shows "formatRFC1123Z t = rfc1123zText (weekday t) t"
proof -
  from assms have m: "1 \<le> month t" "month t \<le> 12" and y: "year t < 10000"
    and d: "day t \<le> daysIn (month t) (year t)"
    by (simp_all add: validDate_def)
  from d daysIn_le_31 [OF m, of "year t"] have d100: "day t < 100" by linarith
  have dd: "appendInt (day t) 2 = [decimal (day t div 10), decimal (day t mod 10)]"
    using d100 by (simp add: appendInt_2 decimal_digitChar)
  have yy: "appendInt (year t) 4
            = [decimal (year t div 1000), decimal (year t div 100 mod 10),
               decimal (year t div 10 mod 10), decimal (year t mod 10)]"
    using y by (simp add: appendInt_4 decimal_digitChar)
  show ?thesis
    unfolding formatRFC1123Z_def rfc1123zText_def dd yy
      shortDayNames_dayAbbrev [OF weekday_less] shortMonthNames_monthAbbrev [OF m] ..
qed

lemma div_step:
  fixes k :: int
  assumes "0 < k"
  shows "int y div k - (int y - 1) div k = (if int y mod k = 0 then 1 else 0)"
proof -
  define q where "q = int y div k"
  define r where "r = int y mod k"
  have y: "int y = k * q + r" by (simp add: q_def r_def)
  have r: "0 \<le> r" "r < k" using assms by (simp_all add: r_def)
  show ?thesis
  proof (cases "r = 0")
    case True
    have "int y - 1 = k * (q - 1) + (k - 1)" using y True by (simp add: algebra_simps)
    moreover have "0 \<le> k - 1" "k - 1 < k" using assms by simp_all
    ultimately have "(int y - 1) div k = q - 1" by (rule int_div_pos_eq)
    with True show ?thesis by (simp add: q_def r_def)
  next
    case False
    have "int y - 1 = k * q + (r - 1)" using y by simp
    moreover have "0 \<le> r - 1" "r - 1 < k" using r False by simp_all
    ultimately have "(int y - 1) div k = q" by (rule int_div_pos_eq)
    with False show ?thesis by (simp add: q_def r_def)
  qed
qed

lemma leapYear_isLeap: "leapYear y = isLeap y"
  by (simp add: leapYear_def isLeap_def dvd_eq_mod_eq_0)

lemma month_step:
  assumes "1 \<le> m" "m < 12"
  shows "int (daysBefore ! m) + (if 2 < m + 1 \<and> L then 1 else 0)
         = int (daysBefore ! (m - 1)) + (if 2 < m \<and> L then 1 else 0)
           + int (if m = 2 then (if L then 29 else 28)
                  else if m = 4 \<or> m = 6 \<or> m = 9 \<or> m = 11 then 30 else 31)"
proof -
  from assms have "m = 1 \<or> m = 2 \<or> m = 3 \<or> m = 4 \<or> m = 5 \<or> m = 6 \<or> m = 7 \<or> m = 8
      \<or> m = 9 \<or> m = 10 \<or> m = 11"
    by arith
  then show ?thesis
    by (elim disjE) (simp_all add: daysBefore_def)
qed

lemma leap_count:
  "(if isLeap y then 1 else 0)
   = (int y div 4 - (int y - 1) div 4) - (int y div 100 - (int y - 1) div 100)
     + (int y div 400 - (int y - 1) div 400)"
proof -
  have s4: "int y div 4 - (int y - 1) div 4 = (if int y mod 4 = 0 then 1 else 0)"
    by (rule div_step) simp
  have s100: "int y div 100 - (int y - 1) div 100 = (if int y mod 100 = 0 then 1 else 0)"
    by (rule div_step) simp
  have s400: "int y div 400 - (int y - 1) div 400 = (if int y mod 400 = 0 then 1 else 0)"
    by (rule div_step) simp
  have z4: "(int y mod 4 = 0) = (y mod 4 = 0)"
    by (metis of_nat_mod of_nat_numeral of_nat_eq_0_iff)
  have z100: "(int y mod 100 = 0) = (y mod 100 = 0)"
    by (metis of_nat_mod of_nat_numeral of_nat_eq_0_iff)
  have z400: "(int y mod 400 = 0) = (y mod 400 = 0)"
    by (metis of_nat_mod of_nat_numeral of_nat_eq_0_iff)
  have i1: "y mod 4 = 0" if "y mod 100 = 0"
  proof -
    from that have "100 dvd y" by (simp add: mod_eq_0_iff_dvd)
    moreover have "(4::nat) dvd 100" by simp
    ultimately have "4 dvd y" by (rule dvd_trans [rotated])
    then show ?thesis by (simp add: mod_eq_0_iff_dvd)
  qed
  have i2: "y mod 100 = 0" if "y mod 400 = 0"
  proof -
    from that have "400 dvd y" by (simp add: mod_eq_0_iff_dvd)
    moreover have "(100::nat) dvd 400" by simp
    ultimately have "100 dvd y" by (rule dvd_trans [rotated])
    then show ?thesis by (simp add: mod_eq_0_iff_dvd)
  qed
  show ?thesis
    unfolding s4 s100 s400 z4 z100 z400 isLeap_def using i1 i2 by auto
qed

lemma nextDay_days:
  assumes "validDate t"
  shows "daysSinceYearOne (nextDay t) = daysSinceYearOne t + 1"
proof -
  from assms have m: "1 \<le> month t" "month t \<le> 12"
    by (simp_all add: validDate_def)
  from assms have d: "1 \<le> day t" "day t \<le> monthLength (month t) (year t)"
    by (simp_all add: validDate_def daysIn_monthLength [OF m, symmetric])
  define y where "y = year t"
  define mo where "mo = month t"
  define L where "L = isLeap y"
  define base where "base = 365 * (int y - 1) + (int y - 1) div 4 - (int y - 1) div 100
                            + (int y - 1) div 400"
  have days: "daysSinceYearOne t
              = base + int (daysBefore ! (mo - 1)) + (if 2 < mo \<and> L then 1 else 0) + int (day t) - 1"
    by (simp add: daysSinceYearOne_def Let_def y_def mo_def L_def base_def)
  show ?thesis
  proof (cases "day t < monthLength mo y")
    case True
    then have "nextDay t = \<lparr>year = y, month = mo, day = day t + 1\<rparr>"
      by (simp add: nextDay_def y_def mo_def)
    then have "daysSinceYearOne (nextDay t)
               = base + int (daysBefore ! (mo - 1)) + (if 2 < mo \<and> L then 1 else 0)
                 + int (day t + 1) - 1"
      by (simp add: daysSinceYearOne_def Let_def L_def base_def)
    with days show ?thesis by simp
  next
    case False
    with d have last: "day t = monthLength mo y" by (simp add: y_def mo_def)
    show ?thesis
    proof (cases "mo < 12")
      case True
      have "nextDay t = \<lparr>year = y, month = mo + 1, day = 1\<rparr>"
        using True last by (simp add: nextDay_def y_def mo_def)
      then have one: "daysSinceYearOne (nextDay t)
               = base + int (daysBefore ! mo) + (if 2 < mo + 1 \<and> L then 1 else 0)"
        by (simp add: daysSinceYearOne_def Let_def L_def base_def)
      have "int (day t) = int (if mo = 2 then (if L then 29 else 28)
                  else if mo = 4 \<or> mo = 6 \<or> mo = 9 \<or> mo = 11 then 30 else 31)"
        unfolding last monthLength_def leapYear_isLeap L_def ..
      with month_step [of mo L] m True
      have "int (daysBefore ! mo) + (if 2 < mo + 1 \<and> L then 1 else 0)
            = int (daysBefore ! (mo - 1)) + (if 2 < mo \<and> L then 1 else 0) + int (day t)"
        by (simp add: mo_def)
      with one days show ?thesis by simp
    next
      case False
      with m have dec: "mo = 12" by (simp add: mo_def)
      with last have d31: "day t = 31" by (simp add: monthLength_def)
      have "nextDay t = \<lparr>year = y + 1, month = 1, day = 1\<rparr>"
        using dec d31 by (simp add: nextDay_def monthLength_def y_def mo_def)
      then have one: "daysSinceYearOne (nextDay t)
               = 365 * int y + int y div 4 - int y div 100 + int y div 400"
        by (simp add: daysSinceYearOne_def Let_def daysBefore_def)
      have two: "daysSinceYearOne t = base + 334 + (if L then 1 else 0) + 30"
        unfolding days by (simp add: dec d31 daysBefore_def)
      show ?thesis
        unfolding one two base_def L_def leap_count by (simp add: algebra_simps)
    qed
  qed
qed

lemma weekday_nextDay:
  assumes "validDate t"
  shows "weekday (nextDay t) = (weekday t + 1) mod 7"
proof -
  define d where "d = daysSinceYearOne t + 1"
  have "weekday (nextDay t) = nat ((d + 1) mod 7)"
    by (simp add: weekday_def nextDay_days [OF assms] d_def)
  also have "(d + 1) mod 7 = (d mod 7 + 1) mod 7" by (simp add: mod_add_left_eq)
  also have "nat ((d mod 7 + 1) mod 7) = (nat (d mod 7) + 1) mod 7"
    by (simp add: nat_mod_distrib nat_add_distrib)
  finally show ?thesis by (simp add: weekday_def d_def)
qed

lemma isoDateString_text:
  assumes "validDate t"
  shows "isoDateString t = isoText t"
proof -
  from assms have m: "1 \<le> month t" "month t \<le> 12" and y: "year t < 10000"
    and d: "day t \<le> daysIn (month t) (year t)"
    by (simp_all add: validDate_def)
  from d daysIn_le_31 [OF m, of "year t"] have d100: "day t < 100" by linarith
  from m have m100: "month t < 100" by linarith
  have dd: "appendInt (day t) 2 = [decimal (day t div 10), decimal (day t mod 10)]"
    using d100 by (simp add: appendInt_2 decimal_digitChar)
  have mm: "appendInt (month t) 2 = [decimal (month t div 10), decimal (month t mod 10)]"
    using m100 by (simp add: appendInt_2 decimal_digitChar)
  have yy: "appendInt (year t) 4
            = [decimal (year t div 1000), decimal (year t div 100 mod 10),
               decimal (year t div 10 mod 10), decimal (year t mod 10)]"
    using y by (simp add: appendInt_4 decimal_digitChar)
  show ?thesis
    unfolding isoDateString_def isoText_def dd mm yy ..
qed

text \<open>
  Claim C9. Both feed builders make one item per post with the loop body \<open>feedItem\<close>.
  \<open>time.Parse\<close> accepts a raw date exactly when it is the text \<open>YYYY-MM-DD\<close> of a date
  of the calendar; then the publish date of the item is that day at midnight UTC in
  the layout \<open>Mon, 02 Jan 2006 15:04:05 -0700\<close>: the name of its day of the week, its day
  with two digits, the name of its month, its year with four digits, \<open>00:00:00 +0000\<close>.
  The day of the week is a number below seven, \<open>0\<close> for Sunday; 5 March 2024 is a
  Tuesday, and the day after a date has the next day of the week. For every other raw
  date the publish date is empty, and the item is built all the same.
\<close>

theorem feed_publish_date:
  "buildRSSFeed_items baseURL posts = map (feedItem baseURL) posts
   \<and> handleRSS_items env baseURL
     = (case loadPosts env of
          Inl err \<Rightarrow> Inl err
        | Inr loaded \<Rightarrow> Inr (map (feedItem baseURL) loaded))
   \<and> (time_Parse raw = Some t \<longleftrightarrow> validDate t \<and> raw = isoText t)
   \<and> (validDate t \<and> RawDate post = isoText t \<longrightarrow>
        PubDate (feedItem baseURL post) = rfc1123zText (weekday t) t)
   \<and> weekday t < 7
   \<and> weekday \<lparr>year = 2024, month = 3, day = 5\<rparr> = 2
   \<and> (validDate t \<longrightarrow> weekday (nextDay t) = (weekday t + 1) mod 7)
   \<and> (\<not> (\<exists>u. validDate u \<and> RawDate post = isoText u) \<longrightarrow>
        PubDate (feedItem baseURL post) = [])"
proof -
  have parse: "time_Parse r = Some u \<longleftrightarrow> validDate u \<and> r = isoText u" for r u
    using time_Parse_Some [of r u] time_Parse_isoDateString [of u] isoDateString_text [of u]
    by auto
  have lists: "buildRSSFeed_items baseURL posts = map (feedItem baseURL) posts"
    by (simp add: buildRSSFeed_items_def feedItems_map)
  have served: "handleRSS_items env baseURL
     = (case loadPosts env of
          Inl err \<Rightarrow> Inl err
        | Inr loaded \<Rightarrow> Inr (map (feedItem baseURL) loaded))"
    by (simp add: handleRSS_items_def feedItems_map split: sum.splits)
  have good: "validDate t \<and> RawDate post = isoText t \<longrightarrow>
        PubDate (feedItem baseURL post) = rfc1123zText (weekday t) t"
  proof
    assume a: "validDate t \<and> RawDate post = isoText t"
    then have "time_Parse (RawDate post) = Some t"
      using parse [of "RawDate post" t] by simp
    then have "PubDate (feedItem baseURL post) = formatRFC1123Z t"
      by (simp add: feedItem_def Let_def)
    with a show "PubDate (feedItem baseURL post) = rfc1123zText (weekday t) t"
      by (simp add: formatRFC1123Z_text)
  qed
  have below: "weekday t < 7" by (rule weekday_less)
  have tuesday: "weekday \<lparr>year = 2024, month = 3, day = 5\<rparr> = 2" by code_simp
  have following: "validDate t \<longrightarrow> weekday (nextDay t) = (weekday t + 1) mod 7"
    using weekday_nextDay by blast
  have bad: "\<not> (\<exists>u. validDate u \<and> RawDate post = isoText u) \<longrightarrow>
        PubDate (feedItem baseURL post) = []"
  proof
    assume none: "\<not> (\<exists>u. validDate u \<and> RawDate post = isoText u)"
    have "time_Parse (RawDate post) = None"
    proof (cases "time_Parse (RawDate post)")
      case None
      then show ?thesis .
    next
      case (Some u)
      then have "validDate u \<and> RawDate post = isoText u"
        using parse [of "RawDate post" u] by simp
      with none show ?thesis by blast
    qed
    then show "PubDate (feedItem baseURL post) = []"
      by (simp add: feedItem_def Let_def)
  qed
  show ?thesis
    by (intro conjI) (fact lists, fact served, fact parse, fact good, fact below,
                      fact tuesday, fact following, fact bad)
qed

theorem feed_publish_date_witness:
  "time_Parse ''2024-03-05'' = Some \<lparr>year = 2024, month = 3, day = 5\<rparr>
   \<and> PubDate (feedItem ''https://example.com'' (plainPost ''a'' ''2024-03-05'' ''March 5, 2024''))
     = ''Tue, 05 Mar 2024 00:00:00 +0000''
   \<and> PubDate (feedItem ''https://example.com'' (plainPost ''c'' ''1999-12-31'' ''December 31, 1999''))
     = ''Fri, 31 Dec 1999 00:00:00 +0000''
   \<and> PubDate (feedItem ''https://example.com'' (plainPost ''d'' ''2000-02-29'' ''February 29, 2000''))
     = ''Tue, 29 Feb 2000 00:00:00 +0000''
   \<and> PubDate (feedItem ''https://example.com'' (plainPost ''e'' ''2026-11-01'' ''November 1, 2026''))
     = ''Sun, 01 Nov 2026 00:00:00 +0000''
   \<and> weekday \<lparr>year = 2000, month = 1, day = 1\<rparr> = 6
   \<and> time_Parse ''unknown'' = None
   \<and> PubDate (feedItem ''https://example.com'' (plainPost ''b'' ''unknown'' ''unknown'')) = []"
proof -
  note claim = feed_publish_date
  have pub: "PubDate (feedItem ''https://example.com'' (plainPost slug raw shown)) = written"
    if "validDate t" "raw = isoText t" "rfc1123zText (weekday t) t = written"
    for slug raw shown written t
    using claim [of "''https://example.com''" _ _ _ t "plainPost slug raw shown"] that
    by (simp add: plainPost_def)
  have parsed: "time_Parse ''2024-03-05'' = Some \<lparr>year = 2024, month = 3, day = 5\<rparr>"
  proof -
    have "validDate \<lparr>year = 2024, month = 3, day = 5\<rparr>" by code_simp
    moreover have "''2024-03-05'' = isoText \<lparr>year = 2024, month = 3, day = 5\<rparr>" by code_simp
    ultimately show ?thesis
      using claim [of _ _ _ "''2024-03-05''" "\<lparr>year = 2024, month = 3, day = 5\<rparr>"] by blast
  qed
  have march: "PubDate (feedItem ''https://example.com'' (plainPost ''a'' ''2024-03-05'' ''March 5, 2024''))
     = ''Tue, 05 Mar 2024 00:00:00 +0000''"
  proof (rule pub)
    show "validDate \<lparr>year = 2024, month = 3, day = 5\<rparr>" by code_simp
    show "''2024-03-05'' = isoText \<lparr>year = 2024, month = 3, day = 5\<rparr>" by code_simp
    show "rfc1123zText (weekday \<lparr>year = 2024, month = 3, day = 5\<rparr>) \<lparr>year = 2024, month = 3, day = 5\<rparr>
          = ''Tue, 05 Mar 2024 00:00:00 +0000''"
      by code_simp
  qed
  have december: "PubDate (feedItem ''https://example.com'' (plainPost ''c'' ''1999-12-31'' ''December 31, 1999''))
     = ''Fri, 31 Dec 1999 00:00:00 +0000''"
  proof (rule pub)
    show "validDate \<lparr>year = 1999, month = 12, day = 31\<rparr>" by code_simp
    show "''1999-12-31'' = isoText \<lparr>year = 1999, month = 12, day = 31\<rparr>" by code_simp
    show "rfc1123zText (weekday \<lparr>year = 1999, month = 12, day = 31\<rparr>) \<lparr>year = 1999, month = 12, day = 31\<rparr>
          = ''Fri, 31 Dec 1999 00:00:00 +0000''"
      by code_simp
  qed
  have february: "PubDate (feedItem ''https://example.com'' (plainPost ''d'' ''2000-02-29'' ''February 29, 2000''))
     = ''Tue, 29 Feb 2000 00:00:00 +0000''"
  proof (rule pub)
    show "validDate \<lparr>year = 2000, month = 2, day = 29\<rparr>" by code_simp
    show "''2000-02-29'' = isoText \<lparr>year = 2000, month = 2, day = 29\<rparr>" by code_simp
    show "rfc1123zText (weekday \<lparr>year = 2000, month = 2, day = 29\<rparr>) \<lparr>year = 2000, month = 2, day = 29\<rparr>
          = ''Tue, 29 Feb 2000 00:00:00 +0000''"
      by code_simp
  qed
  have november: "PubDate (feedItem ''https://example.com'' (plainPost ''e'' ''2026-11-01'' ''November 1, 2026''))
     = ''Sun, 01 Nov 2026 00:00:00 +0000''"
  proof (rule pub)
    show "validDate \<lparr>year = 2026, month = 11, day = 1\<rparr>" by code_simp
    show "''2026-11-01'' = isoText \<lparr>year = 2026, month = 11, day = 1\<rparr>" by code_simp
    show "rfc1123zText (weekday \<lparr>year = 2026, month = 11, day = 1\<rparr>) \<lparr>year = 2026, month = 11, day = 1\<rparr>
          = ''Sun, 01 Nov 2026 00:00:00 +0000''"
      by code_simp
  qed
  have newyear: "weekday \<lparr>year = 2000, month = 1, day = 1\<rparr> = 6"
  proof -
    have v: "validDate \<lparr>year = 1999, month = 12, day = 31\<rparr>" by code_simp
    have n: "nextDay \<lparr>year = 1999, month = 12, day = 31\<rparr> = \<lparr>year = 2000, month = 1, day = 1\<rparr>"
      by code_simp
    have w: "weekday \<lparr>year = 1999, month = 12, day = 31\<rparr> = 5" by code_simp
    from claim [of _ _ _ _ "\<lparr>year = 1999, month = 12, day = 31\<rparr>"] v
    have "weekday (nextDay \<lparr>year = 1999, month = 12, day = 31\<rparr>)
          = (weekday \<lparr>year = 1999, month = 12, day = 31\<rparr> + 1) mod 7"
      by blast
    then show ?thesis unfolding n w by simp
  qed
  have unparsed: "time_Parse ''unknown'' = None"
    by code_simp
  have unknown: "RawDate (plainPost ''b'' ''unknown'' ''unknown'') = ''unknown''"
    by (simp add: plainPost_def)
  have "\<not> (\<exists>u. validDate u \<and> RawDate (plainPost ''b'' ''unknown'' ''unknown'') = isoText u)"
  proof
    assume "\<exists>u. validDate u \<and> RawDate (plainPost ''b'' ''unknown'' ''unknown'') = isoText u"
    then obtain u where "validDate u \<and> ''unknown'' = isoText u"
      unfolding unknown by blast
    then have "time_Parse ''unknown'' = Some u"
      using claim [of _ _ _ "''unknown''" u] by blast
    with unparsed show False by simp
  qed
  then have bad: "PubDate (feedItem ''https://example.com'' (plainPost ''b'' ''unknown'' ''unknown'')) = []"
    using claim [of "''https://example.com''" _ _ _ _ "plainPost ''b'' ''unknown'' ''unknown''"]
    by blast
  show ?thesis
    by (intro conjI) (fact parsed, fact march, fact december, fact february, fact november,
                      fact newyear, fact unparsed, fact bad)
qed

end
